theory Spec2Isabelle
  imports Main "HOL-Library.Word"
begin

section \<open>JavaScript strings\<close>

text \<open>
  A JavaScript string is a sequence of 16-bit code units. None of the regular
  expressions of \<^verbatim>\<open>lua-utils.ts\<close> carries the \<^verbatim>\<open>u\<close> flag, so they work on code units too.
  \<open>js\<close> gives the string with the code units of an ASCII literal.
\<close>

type_synonym jchar = "16 word"
type_synonym jstring = "jchar list"

definition cu :: "char \<Rightarrow> jchar" where
  "cu c = of_char c"

definition js :: "string \<Rightarrow> jstring" where
  "js = map cu"

abbreviation c_tab :: jchar where "c_tab \<equiv> 0x09"
abbreviation c_lf :: jchar where "c_lf \<equiv> 0x0A"
abbreviation c_cr :: jchar where "c_cr \<equiv> 0x0D"
abbreviation c_sp :: jchar where "c_sp \<equiv> 0x20"
abbreviation c_rpar :: jchar where "c_rpar \<equiv> 0x29"
abbreviation c_dash :: jchar where "c_dash \<equiv> 0x2D"
abbreviation c_semi :: jchar where "c_semi \<equiv> 0x3B"
abbreviation c_eq :: jchar where "c_eq \<equiv> 0x3D"
abbreviation c_lbr :: jchar where "c_lbr \<equiv> 0x5B"
abbreviation c_rbr :: jchar where "c_rbr \<equiv> 0x5D"

text \<open>LineTerminator: what \<^verbatim>\<open>.\<close> refuses and what \<^verbatim>\<open>^\<close> (flag \<^verbatim>\<open>m\<close>) looks back at.\<close>

definition is_line_terminator :: "jchar \<Rightarrow> bool" where
  "is_line_terminator c = (c = 0x0A \<or> c = 0x0D \<or> c = 0x2028 \<or> c = 0x2029)"

text \<open>\<^verbatim>\<open>\s\<close>, and what \<^verbatim>\<open>trim()\<close> strips: WhiteSpace and LineTerminator.\<close>

definition is_ws :: "jchar \<Rightarrow> bool" where
  "is_ws c = (c = 0x09 \<or> c = 0x0A \<or> c = 0x0B \<or> c = 0x0C \<or> c = 0x0D \<or> c = 0x20
     \<or> c = 0xA0 \<or> c = 0x1680 \<or> (0x2000 \<le> c \<and> c \<le> 0x200A) \<or> c = 0x2028 \<or> c = 0x2029
     \<or> c = 0x202F \<or> c = 0x205F \<or> c = 0x3000 \<or> c = 0xFEFF)"

text \<open>\<^verbatim>\<open>\w\<close>, the class behind \<^verbatim>\<open>\b\<close>: \<^verbatim>\<open>[A-Za-z0-9_]\<close>.\<close>

definition is_word_char :: "jchar \<Rightarrow> bool" where
  "is_word_char c = ((0x41 \<le> c \<and> c \<le> 0x5A) \<or> (0x61 \<le> c \<and> c \<le> 0x7A)
     \<or> (0x30 \<le> c \<and> c \<le> 0x39) \<or> c = 0x5F)"

text \<open>\<^verbatim>\<open>[a-zA-Z_]\<close>\<close>

definition is_ident_start :: "jchar \<Rightarrow> bool" where
  "is_ident_start c = ((0x61 \<le> c \<and> c \<le> 0x7A) \<or> (0x41 \<le> c \<and> c \<le> 0x5A) \<or> c = 0x5F)"

text \<open>\<^verbatim>\<open>[ \t]\<close>\<close>

definition is_sp_tab :: "jchar \<Rightarrow> bool" where
  "is_sp_tab c = (c = 0x20 \<or> c = 0x09)"

text \<open>\<^verbatim>\<open>[\r\n]\<close>\<close>

definition is_cr_lf :: "jchar \<Rightarrow> bool" where
  "is_cr_lf c = (c = 0x0D \<or> c = 0x0A)"

text \<open>\<^verbatim>\<open>[\r\n\t]\<close>\<close>

definition is_cr_lf_tab :: "jchar \<Rightarrow> bool" where
  "is_cr_lf_tab c = (c = 0x0D \<or> c = 0x0A \<or> c = 0x09)"

text \<open>\<^verbatim>\<open>String.prototype.trim\<close>\<close>

definition js_trim :: "jstring \<Rightarrow> jstring" where
  "js_trim s = rev (dropWhile is_ws (rev (dropWhile is_ws s)))"

definition starts_with :: "jstring \<Rightarrow> jstring \<Rightarrow> bool" where
  "starts_with w s = (take (length w) s = w)"

section \<open>Regular expressions at a position\<close>

text \<open>
  A regular expression is embedded as the function that tries it at one position of the
  input: given the code unit before the position (\<open>None\<close> at the start of the input) and
  the text from the position on, it returns the length of the match that the backtracking
  search of the engine finds there, with the text of capture group 1, or \<open>None\<close>.
\<close>

type_synonym matcher = "jchar option \<Rightarrow> jstring \<Rightarrow> (nat \<times> jstring) option"

text \<open>\<^verbatim>\<open>^\<close> under the flag \<^verbatim>\<open>m\<close>: the start of the input, or just after a LineTerminator.\<close>

definition line_start :: "jchar option \<Rightarrow> bool" where
  "line_start p = (case p of None \<Rightarrow> True | Some c \<Rightarrow> is_line_terminator c)"

text \<open>\<^verbatim>\<open>\b\<close>: exactly one of the two neighbours is a word character.\<close>

definition word_boundary :: "jchar option \<Rightarrow> jstring \<Rightarrow> bool" where
  "word_boundary p s =
     ((case p of None \<Rightarrow> False | Some c \<Rightarrow> is_word_char c)
       \<noteq> (case s of [] \<Rightarrow> False | c # _ \<Rightarrow> is_word_char c))"

text \<open>
  \<^verbatim>\<open>String.prototype.replace\<close> with a regular expression under the flag \<^verbatim>\<open>g\<close>: the
  leftmost match from the current position on is replaced, the search goes on behind it
  (one code unit further after an empty match), and the text between matches is kept.
  The replacement is computed from the matched text and group 1.
\<close>

function replace_global ::
  "matcher \<Rightarrow> (jstring \<Rightarrow> jstring \<Rightarrow> jstring) \<Rightarrow> jchar option \<Rightarrow> jstring \<Rightarrow> jstring" where
  "replace_global m f p [] = (case m p [] of None \<Rightarrow> [] | Some (n, g) \<Rightarrow> f [] g)"
| "replace_global m f p (c # cs) =
     (case m p (c # cs) of
        None \<Rightarrow> c # replace_global m f (Some c) cs
      | Some (n, g) \<Rightarrow>
          if n = 0 then f [] g @ c # replace_global m f (Some c) cs
          else f (take n (c # cs)) g
                 @ replace_global m f (Some ((c # cs) ! (n - 1))) (drop n (c # cs)))"
  by pat_completeness auto
termination
  by (relation "measure (\<lambda>(m, f, p, s). length s)") auto

definition replace_all :: "matcher \<Rightarrow> (jstring \<Rightarrow> jstring \<Rightarrow> jstring) \<Rightarrow> jstring \<Rightarrow> jstring" where
  "replace_all m f s = replace_global m f None s"

text \<open>\<^verbatim>\<open>RegExp.prototype.test\<close> and a truthy \<^verbatim>\<open>String.prototype.match\<close>: a match at some position.\<close>

fun test_from :: "matcher \<Rightarrow> jchar option \<Rightarrow> jstring \<Rightarrow> bool" where
  "test_from m p [] = (m p [] \<noteq> None)"
| "test_from m p (c # cs) = (m p (c # cs) \<noteq> None \<or> test_from m (Some c) cs)"

definition regex_test :: "matcher \<Rightarrow> jstring \<Rightarrow> bool" where
  "regex_test m s = test_from m None s"

text \<open>The replacement \<^verbatim>\<open>''\<close>.\<close>

definition delete_match :: "jstring \<Rightarrow> jstring \<Rightarrow> jstring" where
  "delete_match mt g = []"

section \<open>The comment stripper and detector\<close>

text \<open>
  The lazy \<^verbatim>\<open>[\s\S]*?\<close> followed by a literal: the offset of the first occurrence of the
  literal.
\<close>

fun find_first :: "jstring \<Rightarrow> jstring \<Rightarrow> nat option" where
  "find_first w [] = (if starts_with w [] then Some 0 else None)"
| "find_first w (c # cs) =
     (if starts_with w (c # cs) then Some 0 else map_option Suc (find_first w cs))"

text \<open>
  \<^verbatim>\<open>/--\[(=*)\[[\s\S]*?\]\1\]/\<close>. The greedy \<^verbatim>\<open>(=*)\<close> takes the whole run of \<^verbatim>\<open>=\<close>; with
  fewer, \<^verbatim>\<open>\[\<close> would meet a \<^verbatim>\<open>=\<close>. The closer is \<^verbatim>\<open>]\<close>, the captured run, \<^verbatim>\<open>]\<close>.
\<close>

definition long_comment_m :: matcher where
  "long_comment_m p s =
     (case s of
        a # b # c # r \<Rightarrow>
          if a = c_dash \<and> b = c_dash \<and> c = c_lbr then
            (let eqs = takeWhile (\<lambda>x. x = c_eq) r in
             case dropWhile (\<lambda>x. x = c_eq) r of
               d # body \<Rightarrow>
                 if d = c_lbr then
                   (case find_first (c_rbr # eqs @ [c_rbr]) body of
                      Some j \<Rightarrow> Some (3 + length eqs + 1 + j + (length eqs + 2), eqs)
                    | None \<Rightarrow> None)
                 else None
             | [] \<Rightarrow> None)
          else None
      | _ \<Rightarrow> None)"

text \<open>
  The lookahead \<^verbatim>\<open>(?![\[=]*\[)\<close>: \<^verbatim>\<open>[\[=]*\<close> takes the run of \<^verbatim>\<open>[\<close> and \<^verbatim>\<open>=\<close> and gives
  code units back until a \<^verbatim>\<open>[\<close> follows; the negation holds when the run has no \<^verbatim>\<open>[\<close>.
\<close>

definition no_bracket_ahead :: "jstring \<Rightarrow> bool" where
  "no_bracket_ahead r = (c_lbr \<notin> set (takeWhile (\<lambda>x. x = c_lbr \<or> x = c_eq) r))"

text \<open>\<^verbatim>\<open>/--(?![\[=]*\[).*/\<close>: \<^verbatim>\<open>.*\<close> runs to the next LineTerminator.\<close>

definition line_comment_m :: matcher where
  "line_comment_m p s =
     (case s of
        a # b # r \<Rightarrow>
          if a = c_dash \<and> b = c_dash \<and> no_bracket_ahead r
          then Some (2 + length (takeWhile (\<lambda>x. \<not> is_line_terminator x) r), [])
          else None
      | _ \<Rightarrow> None)"

text \<open>\<^verbatim>\<open>/--(?![\[=]*\[)/\<close>, the single-line test of \<^verbatim>\<open>hasComments\<close>.\<close>

definition line_comment_start_m :: matcher where
  "line_comment_start_m p s =
     (case s of
        a # b # r \<Rightarrow>
          if a = c_dash \<and> b = c_dash \<and> no_bracket_ahead r then Some (2, []) else None
      | _ \<Rightarrow> None)"

text \<open>
  \<^verbatim>\<open>/^\s*[\r\n]/gm\<close>. At a line start the greedy \<^verbatim>\<open>\s*\<close> takes the whole run of white space
  (line terminators are white space) and gives code units back until the next one is
  \<^verbatim>\<open>\r\<close> or \<^verbatim>\<open>\n\<close>: the match ends with the last \<^verbatim>\<open>\r\<close> or \<^verbatim>\<open>\n\<close> of the run.
\<close>

definition blank_line_m :: matcher where
  "blank_line_m p s =
     (let n = length (dropWhile (\<lambda>x. \<not> is_cr_lf x) (rev (takeWhile is_ws s)))
      in if line_start p \<and> 0 < n then Some (n, []) else None)"

definition deleteAllComments :: "jstring \<Rightarrow> jstring" where
  "deleteAllComments code =
     (let result = replace_all long_comment_m delete_match code;
          result = replace_all line_comment_m delete_match result;
          result = replace_all blank_line_m delete_match result
      in result)"

definition hasComments :: "jstring \<Rightarrow> bool" where
  "hasComments code = (regex_test long_comment_m code \<or> regex_test line_comment_start_m code)"

section \<open>The line collapser\<close>

datatype comment_option = Preserve | Delete

text \<open>
  \<^verbatim>\<open>/--[ \t]*(?!\[(?:=|\[)?)(.*)/g\<close>. The group \<^verbatim>\<open>(?:=|\[)?\<close> may match nothing, so the
  lookahead refuses exactly a following \<^verbatim>\<open>[\<close>. The greedy \<^verbatim>\<open>[ \t]*\<close> takes the whole run of
  blanks; when a \<^verbatim>\<open>[\<close> follows the run, it gives one blank back, the lookahead meets
  that blank and group 1 starts with it. With no blank to give back there is no match.
\<close>

definition preserve_m :: matcher where
  "preserve_m p s =
     (case s of
        a # b # r \<Rightarrow>
          if a = c_dash \<and> b = c_dash then
            (let w = takeWhile is_sp_tab r; r' = dropWhile is_sp_tab r in
             if (case r' of [] \<Rightarrow> True | d # _ \<Rightarrow> d \<noteq> c_lbr) then
               (let content = takeWhile (\<lambda>x. \<not> is_line_terminator x) r'
                in Some (2 + length w + length content, content))
             else if w \<noteq> [] then
               (let content = takeWhile (\<lambda>x. \<not> is_line_terminator x) (last w # r')
                in Some (2 + (length w - 1) + length content, content))
             else None)
          else None
      | _ \<Rightarrow> None)"

text \<open>The callback \<^verbatim>\<open>(match, content) => ...\<close> of the preserve branch.\<close>

definition preserve_repl :: "jstring \<Rightarrow> jstring \<Rightarrow> jstring" where
  "preserve_repl mt content =
     (let trimmed = js_trim content
      in if trimmed \<noteq> [] then js '' --[[ '' @ trimmed @ js '' ]] '' else [])"

text \<open>\<^verbatim>\<open>/[\r\n\t]+/g\<close>\<close>

definition nl_tab_run_m :: matcher where
  "nl_tab_run_m p s =
     (let n = length (takeWhile is_cr_lf_tab s) in if 0 < n then Some (n, []) else None)"

text \<open>\<^verbatim>\<open>/\s{2,}/g\<close>\<close>

definition ws_run2_m :: matcher where
  "ws_run2_m p s =
     (let n = length (takeWhile is_ws s) in if 2 \<le> n then Some (n, []) else None)"

text \<open>The replacement \<^verbatim>\<open>' '\<close>.\<close>

definition one_space :: "jstring \<Rightarrow> jstring \<Rightarrow> jstring" where
  "one_space mt g = [c_sp]"

definition toOneLiner :: "jstring \<Rightarrow> comment_option \<Rightarrow> jstring" where
  "toOneLiner code commentOption =
     (let oneLiner =
            (if commentOption = Delete then deleteAllComments code
             else replace_all preserve_m preserve_repl code);
          oneLiner = js_trim (replace_all ws_run2_m one_space
                                (replace_all nl_tab_run_m one_space oneLiner))
      in oneLiner)"

section \<open>The string reverser\<close>

definition reverseCode :: "jstring \<Rightarrow> jstring" where
  "reverseCode code = rev code"

section \<open>The beautifier\<close>

text \<open>\<^verbatim>\<open>/;/g\<close>, replaced by \<^verbatim>\<open>';\n'\<close>.\<close>

definition semicolon_m :: matcher where
  "semicolon_m p s = (case s of c # _ \<Rightarrow> if c = c_semi then Some (1, []) else None | [] \<Rightarrow> None)"

definition semicolon_repl :: "jstring \<Rightarrow> jstring \<Rightarrow> jstring" where
  "semicolon_repl mt g = [c_semi, c_lf]"

text \<open>
  \<^verbatim>\<open>/\)\s*(?=[a-zA-Z_])/g\<close>, replaced by \<^verbatim>\<open>')\n'\<close>. A shorter \<^verbatim>\<open>\s*\<close> would put white space
  under the lookahead, so only the whole run can match.
\<close>

definition paren_m :: matcher where
  "paren_m p s =
     (case s of
        c # r \<Rightarrow>
          if c = c_rpar then
            (case dropWhile is_ws r of
               d # _ \<Rightarrow> if is_ident_start d then Some (1 + length (takeWhile is_ws r), []) else None
             | [] \<Rightarrow> None)
          else None
      | [] \<Rightarrow> None)"

definition paren_repl :: "jstring \<Rightarrow> jstring \<Rightarrow> jstring" where
  "paren_repl mt g = [c_rpar, c_lf]"

text \<open>
  An alternation of words followed by \<^verbatim>\<open>\b\<close>, as in \<^verbatim>\<open>(end|else|elseif|until)\b\<close>: the
  first alternative, in the order written, that is there and ends at a word boundary.
\<close>

definition word_alt :: "jstring list \<Rightarrow> jstring \<Rightarrow> jstring option" where
  "word_alt ws s =
     find (\<lambda>w. starts_with w s \<and> word_boundary (Some (last w)) (drop (length w) s)) ws"

text \<open>\<^verbatim>\<open>/\b(w1|...|wn)\b/\<close>\<close>

definition word_alt_m :: "jstring list \<Rightarrow> matcher" where
  "word_alt_m ws p s =
     (if word_boundary p s
      then (case word_alt ws s of Some w \<Rightarrow> Some (length w, w) | None \<Rightarrow> None)
      else None)"

text \<open>\<^verbatim>\<open>/^(w1|...|wn)\b/\<close> with no flag: \<^verbatim>\<open>^\<close> is the start of the input.\<close>

definition match_at_start :: "jstring list \<Rightarrow> jstring \<Rightarrow> bool" where
  "match_at_start ws s = (word_alt ws s \<noteq> None)"

text \<open>The replacements \<^verbatim>\<open>'$1\n'\<close> and \<^verbatim>\<open>'\n$1'\<close>.\<close>

definition group_then_lf :: "jstring \<Rightarrow> jstring \<Rightarrow> jstring" where
  "group_then_lf mt g = g @ [c_lf]"

definition lf_then_group :: "jstring \<Rightarrow> jstring \<Rightarrow> jstring" where
  "lf_then_group mt g = c_lf # g"

text \<open>\<^verbatim>\<open>/\n\s*\n/g\<close>, replaced by \<^verbatim>\<open>'\n'\<close>: the match ends with the last \<^verbatim>\<open>\n\<close> of the run.\<close>

definition blank_run_m :: matcher where
  "blank_run_m p s =
     (case s of
        c # r \<Rightarrow>
          if c = c_lf then
            (let n = length (dropWhile (\<lambda>x. x \<noteq> c_lf) (rev (takeWhile is_ws r)))
             in if 0 < n then Some (1 + n, []) else None)
          else None
      | [] \<Rightarrow> None)"

definition one_lf :: "jstring \<Rightarrow> jstring \<Rightarrow> jstring" where
  "one_lf mt g = [c_lf]"

text \<open>\<^verbatim>\<open>split('\n')\<close>\<close>

fun split_lf :: "jstring \<Rightarrow> jstring list" where
  "split_lf [] = [[]]"
| "split_lf (c # cs) =
     (if c = c_lf then [] # split_lf cs
      else (case split_lf cs of l # ls \<Rightarrow> (c # l) # ls | [] \<Rightarrow> [[c]]))"

text \<open>
  What the \<^verbatim>\<open>try\<close> block can throw, both a RangeError in JavaScript:
  \<^verbatim>\<open>String.prototype.repeat\<close> throws on a negative count (\<^verbatim>\<open>Invalid count value\<close>), and
  every operation that would build a string longer than the engine allows throws
  \<^verbatim>\<open>Invalid string length\<close>. That limit is not in the source; it is the parameter
  \<open>max_length\<close> here.
\<close>

datatype js_error = InvalidCount | InvalidStringLength

definition js_string :: "nat \<Rightarrow> jstring \<Rightarrow> js_error + jstring" where
  "js_string max_length s = (if max_length < length s then Inl InvalidStringLength else Inr s)"

definition js_repeat :: "nat \<Rightarrow> jstring \<Rightarrow> int \<Rightarrow> js_error + jstring" where
  "js_repeat max_length s n =
     (if n < 0 then Inl InvalidCount else js_string max_length (concat (replicate (nat n) s)))"

text \<open>One statement after another: an error ends the block.\<close>

definition and_then :: "js_error + 'a \<Rightarrow> ('a \<Rightarrow> js_error + 'b) \<Rightarrow> js_error + 'b" where
  "and_then x f = (case x of Inl e \<Rightarrow> Inl e | Inr v \<Rightarrow> f v)"

definition indentChar :: jstring where
  "indentChar = js ''  ''"

definition closers :: "jstring list" where
  "closers = [js ''end'', js ''else'', js ''elseif'', js ''until'']"

definition openers :: "jstring list" where
  "openers = [js ''function'', js ''if'', js ''while'', js ''for'', js ''repeat'', js ''do'',
     js ''then'']"

text \<open>The \<^verbatim>\<open>for (let line of lines)\<close> loop, with \<open>indentLevel\<close> and \<open>formatted\<close> as its state.\<close>

fun beautify_lines :: "nat \<Rightarrow> jstring list \<Rightarrow> int \<Rightarrow> jstring \<Rightarrow> js_error + jstring" where
  "beautify_lines max_length [] indentLevel formatted = Inr formatted"
| "beautify_lines max_length (l # ls) indentLevel formatted =
     (let line = js_trim l in
      if line = [] then beautify_lines max_length ls indentLevel formatted
      else
        (let indentLevel1 =
               (if match_at_start closers line then max 0 (indentLevel - 1) else indentLevel)
         in case js_repeat max_length indentChar indentLevel1 of
              Inl e \<Rightarrow> Inl e
            | Inr indent \<Rightarrow>
                (case js_string max_length (indent @ line @ [c_lf]) of
                   Inl e \<Rightarrow> Inl e
                 | Inr piece \<Rightarrow>
                     (case js_string max_length (formatted @ piece) of
                        Inl e \<Rightarrow> Inl e
                      | Inr formatted1 \<Rightarrow>
                          beautify_lines max_length ls
                            (if regex_test (word_alt_m openers) line
                                \<and> \<not> regex_test (word_alt_m [js ''end'']) line
                                \<and> \<not> match_at_start [js ''else'', js ''elseif''] line
                             then indentLevel1 + 1 else indentLevel1)
                            formatted1))))"

text \<open>The four replacements that break up one-liners.\<close>

definition processedCode :: "nat \<Rightarrow> jstring \<Rightarrow> js_error + jstring" where
  "processedCode max_length code =
     and_then (js_string max_length (replace_all semicolon_m semicolon_repl code)) (\<lambda>s1.
     and_then (js_string max_length (replace_all paren_m paren_repl s1)) (\<lambda>s2.
     and_then (js_string max_length
                 (replace_all (word_alt_m [js ''then'', js ''do'']) group_then_lf s2)) (\<lambda>s3.
     js_string max_length (replace_all (word_alt_m closers) lf_then_group s3))))"

text \<open>
  The body of the \<^verbatim>\<open>try\<close> block. The last replacement and \<^verbatim>\<open>trim\<close> only shorten the text.
\<close>

definition beautify_try :: "nat \<Rightarrow> jstring \<Rightarrow> js_error + jstring" where
  "beautify_try max_length code =
     and_then (processedCode max_length code) (\<lambda>processed.
     and_then (beautify_lines max_length (split_lf processed) 0 []) (\<lambda>formatted.
     Inr (js_trim (replace_all blank_run_m one_lf formatted))))"

text \<open>
  The function with its \<^verbatim>\<open>catch\<close> clause, which returns the input whatever was thrown. The
  result is the outcome of the call: \<open>Inl\<close> would be an error that reaches the caller.
\<close>

definition beautifyCode :: "nat \<Rightarrow> jstring \<Rightarrow> js_error + jstring" where
  "beautifyCode max_length code =
     (case beautify_try max_length code of Inl e \<Rightarrow> Inr code | Inr formatted \<Rightarrow> Inr formatted)"

section \<open>Notions used in the statements\<close>

text \<open>The long-bracket opener and closer with \<open>n\<close> equals signs.\<close>

definition lb_open :: "nat \<Rightarrow> jstring" where
  "lb_open n = js ''--['' @ replicate n c_eq @ [c_lbr]"

definition lb_close :: "nat \<Rightarrow> jstring" where
  "lb_close n = c_rbr # replicate n c_eq @ [c_rbr]"

text \<open>The offsets at which \<open>w\<close> occurs in \<open>s\<close>.\<close>

definition occurrences :: "jstring \<Rightarrow> jstring \<Rightarrow> nat list" where
  "occurrences w s = filter (\<lambda>i. starts_with w (drop i s)) [0..<Suc (length s)]"

text \<open>
  The text starts with a long-bracket opener, \<^verbatim>\<open>--\<close> followed by \<^verbatim>\<open>[\<close>, zero or more \<^verbatim>\<open>=\<close> and
  \<^verbatim>\<open>[\<close>: the number of \<^verbatim>\<open>=\<close> and the text behind the opener.
\<close>

definition opener_at :: "jstring \<Rightarrow> (nat \<times> jstring) option" where
  "opener_at s =
     (if starts_with (js ''--['') s
      then (let n = length (takeWhile (\<lambda>x. x = c_eq) (drop 3 s))
            in if starts_with [c_lbr] (drop (3 + n) s) then Some (n, drop (4 + n) s) else None)
      else None)"

text \<open>The text from each offset on.\<close>

fun suffixes_of :: "jstring \<Rightarrow> jstring list" where
  "suffixes_of [] = [[]]"
| "suffixes_of (c # cs) = (c # cs) # suffixes_of cs"

text \<open>Every long-bracket opener has a closer with the same number of \<^verbatim>\<open>=\<close> behind it.\<close>

definition well_terminated :: "jstring \<Rightarrow> bool" where
  "well_terminated s =
     (\<forall>v\<in>set (suffixes_of s). case opener_at v of None \<Rightarrow> True
         | Some (n, r) \<Rightarrow> occurrences (lb_close n) r \<noteq> [])"

text \<open>
  The detector as the specification words it: the text contains a long-bracket comment, or
  a \<^verbatim>\<open>--\<close> that does not begin a long-bracket opener.
\<close>

definition has_long_bracket_comment :: "jstring \<Rightarrow> bool" where
  "has_long_bracket_comment s =
     (\<exists>v\<in>set (suffixes_of s). case opener_at v of None \<Rightarrow> False
         | Some (n, r) \<Rightarrow> occurrences (lb_close n) r \<noteq> [])"

definition has_plain_dashes :: "jstring \<Rightarrow> bool" where
  "has_plain_dashes s =
     (\<exists>v\<in>set (suffixes_of s). starts_with (js ''--'') v \<and> opener_at v = None)"

definition spec_hasComments :: "jstring \<Rightarrow> bool" where
  "spec_hasComments s = (has_long_bracket_comment s \<or> has_plain_dashes s)"

text \<open>The code unit before offset \<open>i\<close>.\<close>

definition prev_at :: "jstring \<Rightarrow> nat \<Rightarrow> jchar option" where
  "prev_at s i = (if i = 0 then None else Some (s ! (i - 1)))"

text \<open>
  A blank line ended by \<^verbatim>\<open>\r\<close> or \<^verbatim>\<open>\n\<close>: offset \<open>i\<close> is a line start, only white space lies
  between \<open>i\<close> and \<open>j\<close>, and at \<open>j\<close> stands \<^verbatim>\<open>\r\<close> or \<^verbatim>\<open>\n\<close>.
\<close>

definition blank_line_at :: "jstring \<Rightarrow> nat \<Rightarrow> nat \<Rightarrow> bool" where
  "blank_line_at s i j =
     (i \<le> j \<and> j < length s \<and> line_start (prev_at s i)
      \<and> (\<forall>k\<in>{i..<j}. is_ws (s ! k)) \<and> is_cr_lf (s ! j))"

text \<open>Every \<^verbatim>\<open>--\<close> of the text begins a long-bracket opener.\<close>

definition dashes_open_long :: "jstring \<Rightarrow> bool" where
  "dashes_open_long s =
     list_all (\<lambda>i. opener_at (drop i s) \<noteq> None) (occurrences (js ''--'') s)"

text \<open>
  The text ends with the beginning of a long-bracket opener: with \<^verbatim>\<open>-\<close>, or with \<^verbatim>\<open>--[\<close> and
  any number of \<^verbatim>\<open>=\<close>.
\<close>

definition ends_with_opener_start :: "jstring \<Rightarrow> bool" where
  "ends_with_opener_start a =
     ((a \<noteq> [] \<and> last a = c_dash)
      \<or> starts_with [c_lbr, c_dash, c_dash] (dropWhile (\<lambda>x. x = c_eq) (rev a)))"

text \<open>No long-bracket opener stands directly behind the beginning of another.\<close>

definition openers_detached :: "jstring \<Rightarrow> bool" where
  "openers_detached t =
     list_all (\<lambda>i. opener_at (drop i t) = None \<or> \<not> ends_with_opener_start (take i t))
       [0..<Suc (length t)]"

section \<open>The expressions on examples\<close>

text \<open>
  The closer must repeat the captured \<^verbatim>\<open>=\<close>; the lookahead of the single-line expression
  refuses \<^verbatim>\<open>--=[\<close>.
\<close>

lemma long_comment_m_examples:
  "long_comment_m None (js ''--[=[ a ]] b ]=] c'') = Some (16, js ''='')"
  "long_comment_m None (js ''--[==[ a ]=]'') = None"
  by code_simp+

lemma line_comment_m_examples:
  "line_comment_m None (js ''-- x'' @ c_lf # js ''y'') = Some (4, [])"
  "line_comment_m None (js ''--=x'') = Some (4, [])"
  "line_comment_m None (js ''--=[ x'') = None"
  by code_simp+

text \<open>A blank line is matched at a line start only, through the last line end of the run.\<close>

lemma blank_line_m_examples:
  "blank_line_m (Some c_lf) ([c_sp, c_lf, c_tab, c_lf, c_sp] @ js ''x'') = Some (4, [])"
  "blank_line_m (Some (cu CHR ''x'')) [c_sp, c_lf] = None"
  "blank_line_m None [c_sp, c_sp] = None"
  by code_simp+

text \<open>A blank given back by \<^verbatim>\<open>[ \t]*\<close> lets \<^verbatim>\<open>--  [[x\<close> match; \<^verbatim>\<open>--[[x\<close> has none.\<close>

lemma preserve_m_examples:
  "preserve_m None (js ''--  [[x'') = Some (7, js '' [[x'')"
  "preserve_m None (js ''--[[x'') = None"
  "preserve_m None (js ''--  x  '' @ c_lf # js ''y'') = Some (7, js ''x  '')"
  by code_simp+

lemma beautifier_examples:
  "paren_m None (js '')  x'') = Some (3, [])"
  "paren_m None (js '') ;'') = None"
  "word_alt_m closers (Some c_sp) (js ''elseif x'') = Some (6, js ''elseif'')"
  "word_alt_m closers (Some c_sp) (js ''else x'') = Some (4, js ''else'')"
  "word_alt_m closers (Some c_sp) (js ''elsewhere'') = None"
  "word_alt_m closers (Some (cu CHR ''x'')) (js ''end'') = None"
  "blank_run_m None (c_lf # c_sp # c_lf # c_lf # c_sp # js ''x'') = Some (4, [])"
  "split_lf (js ''a'' @ c_lf # c_lf # js ''b'') = [js ''a'', [], js ''b'']"
  by code_simp+

section \<open>General facts about replacement\<close>

lemma replace_global_None:
  "m p (c # cs) = None \<Longrightarrow> replace_global m f p (c # cs) = c # replace_global m f (Some c) cs"
  by simp

lemma replace_global_empty:
  "m p (c # cs) = Some (0, g) \<Longrightarrow>
   replace_global m f p (c # cs) = f [] g @ c # replace_global m f (Some c) cs"
  by simp

lemma replace_global_match:
  "m p (c # cs) = Some (n, g) \<Longrightarrow> 0 < n \<Longrightarrow>
   replace_global m f p (c # cs)
     = f (take n (c # cs)) g @ replace_global m f (Some ((c # cs) ! (n - 1))) (drop n (c # cs))"
  by simp

lemma scan_induct [case_names Nil Skip Empty Match]:
  assumes nil: "\<And>p. Q p []"
    and skip: "\<And>p c cs. m p (c # cs) = None \<Longrightarrow> Q (Some c) cs \<Longrightarrow> Q p (c # cs)"
    and empty: "\<And>p c cs g. m p (c # cs) = Some (0, g) \<Longrightarrow> Q (Some c) cs \<Longrightarrow> Q p (c # cs)"
    and match: "\<And>p c cs n g. m p (c # cs) = Some (n, g) \<Longrightarrow> 0 < n \<Longrightarrow>
                  Q (Some ((c # cs) ! (n - 1))) (drop n (c # cs)) \<Longrightarrow> Q p (c # cs)"
  shows "Q p s"
proof (induction "length s" arbitrary: p s rule: less_induct)
  case less
  show ?case
  proof (cases s)
    case Nil
    then show ?thesis by (simp add: nil)
  next
    case (Cons c cs)
    show ?thesis
    proof (cases "m p (c # cs)")
      case None
      then show ?thesis using less [of cs "Some c"] Cons skip by simp
    next
      case (Some a)
      obtain n g where a: "a = (n, g)" by (cases a)
      show ?thesis
      proof (cases "n = 0")
        case True
        then show ?thesis using less [of cs "Some c"] Cons Some a empty by simp
      next
        case False
        have "length (drop n (c # cs)) < length s" using False Cons by simp
        from less [OF this] False Some a Cons match [of p c cs n g] show ?thesis by simp
      qed
    qed
  qed
qed

lemma replace_global_avoids:
  assumes keep: "\<And>p c cs. m p (c # cs) = None \<Longrightarrow> \<not> P c"
    and empty: "\<And>p c cs g. m p (c # cs) = Some (0, g) \<Longrightarrow> \<not> P c"
    and atend: "\<And>p. m p [] = None"
    and repl: "\<And>mt g c. c \<in> set (f mt g) \<Longrightarrow> \<not> P c"
  shows "\<forall>c\<in>set (replace_global m f p s). \<not> P c"
proof (induction p s rule: scan_induct [where m = m])
  case (Nil p)
  show ?case by (simp add: atend)
next
  case (Skip p c cs)
  then show ?case using keep [of p c cs] by (simp add: replace_global_None)
next
  case (Empty p c cs g)
  then show ?case using empty [of p c cs g] repl by (auto simp: replace_global_empty)
next
  case (Match p c cs n g)
  then show ?case using repl by (auto simp: replace_global_match)
qed

lemma replace_global_subset:
  assumes atend: "\<And>p. m p [] = None"
    and repl: "\<And>mt g. set (f mt g) \<subseteq> A"
  shows "set (replace_global m f p s) \<subseteq> set s \<union> A"
proof (induction p s rule: scan_induct [where m = m])
  case (Nil p)
  show ?case by (simp add: atend)
next
  case (Skip p c cs)
  then show ?case by (auto simp: replace_global_None)
next
  case (Empty p c cs g)
  then show ?case using repl [of "[]" g] by (auto simp: replace_global_empty)
next
  case (Match p c cs n g)
  have "set (drop n (c # cs)) \<subseteq> set (c # cs)" by (rule set_drop_subset)
  with Match show ?case using repl [of "take n (c # cs)" g]
    by (auto simp: replace_global_match simp del: drop_Suc_Cons take_Suc_Cons)
qed

lemma set_js_trim: "set (js_trim s) \<subseteq> set s"
proof -
  have "set (dropWhile is_ws (rev (dropWhile is_ws s))) \<subseteq> set (rev (dropWhile is_ws s))"
    by (auto dest: set_dropWhileD)
  also have "\<dots> \<subseteq> set s" by (auto dest: set_dropWhileD)
  finally show ?thesis by (simp add: js_trim_def)
qed

section \<open>The line collapser leaves no newline and no tab\<close>

lemma nl_tab_gone: "\<forall>c\<in>set (replace_all nl_tab_run_m one_space s). \<not> is_cr_lf_tab c"
  unfolding replace_all_def
proof (rule replace_global_avoids)
  fix p c cs
  assume "nl_tab_run_m p (c # cs) = None"
  then show "\<not> is_cr_lf_tab c"
    by (auto simp: nl_tab_run_m_def Let_def split: if_splits)
next
  fix p c cs g
  assume "nl_tab_run_m p (c # cs) = Some (0, g)"
  then show "\<not> is_cr_lf_tab c"
    by (auto simp: nl_tab_run_m_def Let_def split: if_splits)
next
  fix p
  show "nl_tab_run_m p [] = None" by (simp add: nl_tab_run_m_def)
next
  fix mt g c
  assume "c \<in> set (one_space mt g)"
  then show "\<not> is_cr_lf_tab c"
    by (simp add: one_space_def is_cr_lf_tab_def)
qed

text \<open>
  Claim C7. In both modes the string returned by \<open>toOneLiner\<close> contains no newline and no
  tab: every run of \<^verbatim>\<open>\r\<close>, \<^verbatim>\<open>\n\<close> and \<^verbatim>\<open>\t\<close> becomes a space, and neither the second
  replacement nor \<^verbatim>\<open>trim\<close> adds a code unit other than a space.
\<close>

theorem toOneLiner_no_newline_no_tab:
  "c_lf \<notin> set (toOneLiner code commentOption) \<and> c_tab \<notin> set (toOneLiner code commentOption)"
proof -
  define a where "a = (if commentOption = Delete then deleteAllComments code
             else replace_all preserve_m preserve_repl code)"
  define b where "b = replace_all nl_tab_run_m one_space a"
  define c where "c = replace_all ws_run2_m one_space b"
  have res: "toOneLiner code commentOption = js_trim c"
    by (simp add: toOneLiner_def a_def b_def c_def)
  have b: "\<forall>x\<in>set b. \<not> is_cr_lf_tab x"
    unfolding b_def by (rule nl_tab_gone)
  have "set c \<subseteq> set b \<union> {c_sp}"
    unfolding c_def replace_all_def
    by (rule replace_global_subset) (simp_all add: one_space_def ws_run2_m_def)
  moreover have "\<not> is_cr_lf_tab c_sp" by (simp add: is_cr_lf_tab_def)
  ultimately have c: "\<forall>x\<in>set c. \<not> is_cr_lf_tab x" using b by auto
  have "\<forall>x\<in>set (js_trim c). \<not> is_cr_lf_tab x"
    using c set_js_trim [of c] by auto
  moreover have "is_cr_lf_tab c_lf" "is_cr_lf_tab c_tab" by (simp_all add: is_cr_lf_tab_def)
  ultimately show ?thesis unfolding res by blast
qed

section \<open>The beautifier never raises\<close>

lemma and_then_Inl: "and_then x f = Inl e \<longleftrightarrow> x = Inl e \<or> (\<exists>v. x = Inr v \<and> f v = Inl e)"
  by (cases x) (simp_all add: and_then_def)

lemma and_then_Inr: "and_then x f = Inr r \<longleftrightarrow> (\<exists>v. x = Inr v \<and> f v = Inr r)"
  by (cases x) (simp_all add: and_then_def)

lemma js_string_count: "js_string max_length s \<noteq> Inl InvalidCount"
  by (simp add: js_string_def)

lemma js_repeat_count: "0 \<le> n \<Longrightarrow> js_repeat max_length s n \<noteq> Inl InvalidCount"
  by (simp add: js_repeat_def js_string_count)

lemma beautify_lines_count:
  "0 \<le> indentLevel \<Longrightarrow> beautify_lines max_length ls indentLevel formatted \<noteq> Inl InvalidCount"
proof (induction ls arbitrary: indentLevel formatted)
  case Nil
  then show ?case by simp
next
  case (Cons l ls)
  show ?case
  proof (cases "js_trim l = []")
    case True
    with Cons show ?thesis by simp
  next
    case False
    define lvl1 where
      "lvl1 = (if match_at_start closers (js_trim l) then max 0 (indentLevel - 1) else indentLevel)"
    define lvl2 where
      "lvl2 = (if regex_test (word_alt_m openers) (js_trim l)
                  \<and> \<not> regex_test (word_alt_m [js ''end'']) (js_trim l)
                  \<and> \<not> match_at_start [js ''else'', js ''elseif''] (js_trim l)
               then lvl1 + 1 else lvl1)"
    have lvl1: "0 \<le> lvl1" using Cons.prems by (simp add: lvl1_def)
    then have lvl2: "0 \<le> lvl2" by (simp add: lvl2_def)
    have step: "beautify_lines max_length (l # ls) indentLevel formatted
      = (case js_repeat max_length indentChar lvl1 of
           Inl e \<Rightarrow> Inl e
         | Inr indent \<Rightarrow>
             (case js_string max_length (indent @ js_trim l @ [c_lf]) of
                Inl e \<Rightarrow> Inl e
              | Inr piece \<Rightarrow>
                  (case js_string max_length (formatted @ piece) of
                     Inl e \<Rightarrow> Inl e
                   | Inr formatted1 \<Rightarrow> beautify_lines max_length ls lvl2 formatted1)))"
      using False unfolding lvl1_def lvl2_def by (simp add: Let_def)
    show ?thesis
      unfolding step
      using js_repeat_count [OF lvl1, of max_length indentChar] js_string_count Cons.IH [OF lvl2]
      by (auto split: sum.splits)
  qed
qed

lemma beautify_try_count: "beautify_try max_length code \<noteq> Inl InvalidCount"
proof
  assume "beautify_try max_length code = Inl InvalidCount"
  then consider "processedCode max_length code = Inl InvalidCount"
    | p where "beautify_lines max_length (split_lf p) 0 [] = Inl InvalidCount"
    by (auto simp: beautify_try_def and_then_Inl)
  then show False
  proof cases
    case 1
    then show ?thesis
      using js_string_count by (auto simp: processedCode_def and_then_Inl)
  next
    case 2
    then show ?thesis using beautify_lines_count [of 0] by simp
  qed
qed

text \<open>
  Claim C4. \<open>beautifyCode\<close> never raises: every call returns a string. When the \<^verbatim>\<open>try\<close> block
  fails, the string is the unchanged input, and otherwise what the block returns. The block
  never fails on the count of \<^verbatim>\<open>repeat\<close>, since the indent depth is never negative; it
  fails when a string outgrows the engine's limit, as on deeply nested blocks.
\<close>

theorem beautifyCode_never_raises:
  "(\<exists>r. beautifyCode max_length code = Inr r)
   \<and> (beautify_try max_length code = Inl e \<longrightarrow> beautifyCode max_length code = Inr code)
   \<and> (beautify_try max_length code = Inr r \<longrightarrow> beautifyCode max_length code = Inr r)
   \<and> beautify_try max_length code \<noteq> Inl InvalidCount"
  using beautify_try_count [of max_length code]
  by (auto simp: beautifyCode_def split: sum.splits)

theorem beautifyCode_never_raises_witness:
  "beautify_try 20 (js ''do do do do'') = Inl InvalidStringLength
   \<and> beautifyCode 20 (js ''do do do do'') = Inr (js ''do do do do'')
   \<and> beautify_try 30 (js ''do do do do'')
       = Inr (js ''do'' @ c_lf # js ''  do'' @ c_lf # js ''    do'' @ c_lf # js ''      do'')
   \<and> beautifyCode 30 (js ''do do do do'')
       = Inr (js ''do'' @ c_lf # js ''  do'' @ c_lf # js ''    do'' @ c_lf # js ''      do'')"
proof -
  have f: "beautify_try 20 (js ''do do do do'') = Inl InvalidStringLength"
    by code_simp
  have g: "beautify_try 30 (js ''do do do do'')
       = Inr (js ''do'' @ c_lf # js ''  do'' @ c_lf # js ''    do'' @ c_lf # js ''      do'')"
    by code_simp
  from f beautifyCode_never_raises [of 20 "js ''do do do do''" InvalidStringLength]
  have 1: "beautifyCode 20 (js ''do do do do'') = Inr (js ''do do do do'')" by blast
  from g beautifyCode_never_raises [of 30 "js ''do do do do''" _
      "js ''do'' @ c_lf # js ''  do'' @ c_lf # js ''    do'' @ c_lf # js ''      do''"]
  have 2: "beautifyCode 30 (js ''do do do do'')
       = Inr (js ''do'' @ c_lf # js ''  do'' @ c_lf # js ''    do'' @ c_lf # js ''      do'')"
    by blast
  from f g 1 2 show ?thesis by blast
qed

section \<open>The equals signs of opener and closer\<close>

lemma js_simps: "js [] = []" "js (x # xs) = cu x # js xs"
  by (simp_all add: js_def)

lemma replace_global_id:
  assumes "\<And>p' u v. s = u @ v \<Longrightarrow> m p' v = None"
  shows "replace_global m f p s = s"
  using assms
proof (induction s arbitrary: p)
  case Nil
  then show ?case by simp
next
  case (Cons c cs)
  have "m p (c # cs) = None" using Cons.prems [of "[]" "c # cs"] by simp
  moreover have "replace_global m f (Some c) cs = cs"
  proof (rule Cons.IH)
    fix p' u v assume "cs = u @ v"
    then show "m p' v = None" using Cons.prems [of "c # u" v] by simp
  qed
  ultimately show ?case by simp
qed









lemma long_comment_m_dashes:
  "long_comment_m p v \<noteq> None \<Longrightarrow> \<exists>r. v = c_dash # c_dash # c_lbr # r"
  by (auto simp: long_comment_m_def split: list.splits if_splits)

lemma not_dash_no_match:
  assumes "hd v \<noteq> c_dash \<or> v = []"
  shows "long_comment_m p v = None" "line_comment_m p v = None"
    "line_comment_start_m p v = None" "preserve_m p v = None"
  using assms
  by (cases v; auto simp: long_comment_m_def line_comment_m_def line_comment_start_m_def
        preserve_m_def split: list.splits)+

lemma blank_line_m_no_eol:
  assumes "\<forall>c\<in>set v. \<not> is_cr_lf c"
  shows "blank_line_m p v = None"
proof -
  have "\<forall>c\<in>set (rev (takeWhile is_ws v)). \<not> is_cr_lf c"
    using assms by (auto dest: set_takeWhileD)
  then have "dropWhile (\<lambda>x. \<not> is_cr_lf x) (rev (takeWhile is_ws v)) = []"
    by (simp only: dropWhile_eq_Nil_conv) 
  then show ?thesis by (simp add: blank_line_m_def)
qed








section \<open>The beautifier on a one-line block\<close>

lemma js_string_mono:
  "js_string max_length s = Inr r \<Longrightarrow> max_length \<le> n \<Longrightarrow> js_string n s = Inr r"
  by (auto simp: js_string_def split: if_splits)

lemma js_repeat_mono:
  "js_repeat max_length s k = Inr r \<Longrightarrow> max_length \<le> n \<Longrightarrow> js_repeat n s k = Inr r"
  by (auto simp: js_repeat_def split: if_splits dest: js_string_mono)

lemma beautify_lines_mono:
  "beautify_lines max_length ls indentLevel formatted = Inr r \<Longrightarrow> max_length \<le> n \<Longrightarrow>
   beautify_lines n ls indentLevel formatted = Inr r"
proof (induction ls arbitrary: indentLevel formatted)
  case Nil
  then show ?case by simp
next
  case (Cons l ls)
  show ?case
  proof (cases "js_trim l = []")
    case True
    with Cons show ?thesis by simp
  next
    case False
    define lvl1 where
      "lvl1 = (if match_at_start closers (js_trim l) then max 0 (indentLevel - 1) else indentLevel)"
    define lvl2 where
      "lvl2 = (if regex_test (word_alt_m openers) (js_trim l)
                  \<and> \<not> regex_test (word_alt_m [js ''end'']) (js_trim l)
                  \<and> \<not> match_at_start [js ''else'', js ''elseif''] (js_trim l)
               then lvl1 + 1 else lvl1)"
    have step: "beautify_lines k (l # ls) indentLevel formatted
      = (case js_repeat k indentChar lvl1 of
           Inl e \<Rightarrow> Inl e
         | Inr indent \<Rightarrow>
             (case js_string k (indent @ js_trim l @ [c_lf]) of
                Inl e \<Rightarrow> Inl e
              | Inr piece \<Rightarrow>
                  (case js_string k (formatted @ piece) of
                     Inl e \<Rightarrow> Inl e
                   | Inr formatted1 \<Rightarrow> beautify_lines k ls lvl2 formatted1)))" for k
      using False unfolding lvl1_def lvl2_def by (simp add: Let_def)
    from Cons.prems(1) obtain indent piece formatted1
      where a: "js_repeat max_length indentChar lvl1 = Inr indent"
        and b: "js_string max_length (indent @ js_trim l @ [c_lf]) = Inr piece"
        and c: "js_string max_length (formatted @ piece) = Inr formatted1"
        and d: "beautify_lines max_length ls lvl2 formatted1 = Inr r"
      unfolding step by (auto split: sum.splits)
    from js_repeat_mono [OF a Cons.prems(2)] js_string_mono [OF b Cons.prems(2)]
      js_string_mono [OF c Cons.prems(2)] Cons.IH [OF d Cons.prems(2)]
    show ?thesis unfolding step by simp
  qed
qed

lemma processedCode_mono:
  assumes "processedCode max_length code = Inr r" and "max_length \<le> n"
  shows "processedCode n code = Inr r"
proof -
  from assms(1) obtain s1 s2 s3
    where 1: "js_string max_length (replace_all semicolon_m semicolon_repl code) = Inr s1"
      and 2: "js_string max_length (replace_all paren_m paren_repl s1) = Inr s2"
      and 3: "js_string max_length
                (replace_all (word_alt_m [js ''then'', js ''do'']) group_then_lf s2) = Inr s3"
      and 4: "js_string max_length (replace_all (word_alt_m closers) lf_then_group s3) = Inr r"
    unfolding processedCode_def and_then_Inr by blast
  from js_string_mono [OF 1 assms(2)] js_string_mono [OF 2 assms(2)]
    js_string_mono [OF 3 assms(2)] js_string_mono [OF 4 assms(2)]
  show ?thesis unfolding processedCode_def and_then_Inr by blast
qed

lemma beautify_try_mono:
  assumes "beautify_try max_length code = Inr r" and "max_length \<le> n"
  shows "beautify_try n code = Inr r"
proof -
  from assms(1) obtain p f
    where 1: "processedCode max_length code = Inr p"
      and 2: "beautify_lines max_length (split_lf p) 0 [] = Inr f"
      and 3: "r = js_trim (replace_all blank_run_m one_lf f)"
    unfolding beautify_try_def and_then_Inr by auto
  from processedCode_mono [OF 1 assms(2)] beautify_lines_mono [OF 2 assms(2)] 3
  show ?thesis unfolding beautify_try_def and_then_Inr by auto
qed

text \<open>
  Claim C5, amended. Where the engine allows strings of 25 code units, \<open>beautifyCode\<close> turns
  \<^verbatim>\<open>if x then print(1) end\<close> into three lines: \<^verbatim>\<open>if x then\<close> at depth 0, \<^verbatim>\<open>print(1)\<close> behind
  one indent unit, \<^verbatim>\<open>end\<close> at depth 0. The line breaks put behind \<^verbatim>\<open>)\<close> and \<^verbatim>\<open>then\<close> and
  before \<^verbatim>\<open>end\<close> give the loop the lines \<^verbatim>\<open>if x then\<close>, \<^verbatim>\<open>print(1)\<close>, an empty line and
  \<^verbatim>\<open>end\<close>; the first has an opening keyword and no \<^verbatim>\<open>end\<close> and raises the depth, the second
  has no keyword, and the last starts with \<^verbatim>\<open>end\<close> and lowers the depth before it is
  written.
\<close>

theorem beautifyCode_if_then_end:
  "(25 \<le> max_length \<longrightarrow>
      processedCode max_length (js ''if x then print(1) end'')
        = Inr (js ''if x then'' @ c_lf # js '' print(1)'' @ c_lf # c_lf # js ''end'')
      \<and> beautifyCode max_length (js ''if x then print(1) end'')
        = Inr (js ''if x then'' @ c_lf # indentChar @ js ''print(1)'' @ c_lf # js ''end''))
   \<and> split_lf (js ''if x then'' @ c_lf # js '' print(1)'' @ c_lf # c_lf # js ''end'')
        = [js ''if x then'', js '' print(1)'', [], js ''end'']
   \<and> split_lf (js ''if x then'' @ c_lf # indentChar @ js ''print(1)'' @ c_lf # js ''end'')
        = [js ''if x then'', js ''  print(1)'', js ''end'']
   \<and> regex_test (word_alt_m openers) (js ''if x then'')
   \<and> \<not> regex_test (word_alt_m [js ''end'']) (js ''if x then'')
   \<and> \<not> match_at_start [js ''else'', js ''elseif''] (js ''if x then'')
   \<and> \<not> match_at_start closers (js ''if x then'')
   \<and> \<not> regex_test (word_alt_m openers) (js ''print(1)'')
   \<and> \<not> match_at_start closers (js ''print(1)'')
   \<and> match_at_start closers (js ''end'')
   \<and> \<not> regex_test (word_alt_m openers) (js ''end'')"
proof -
  have p: "processedCode 25 (js ''if x then print(1) end'')
        = Inr (js ''if x then'' @ c_lf # js '' print(1)'' @ c_lf # c_lf # js ''end'')"
    by code_simp
  have t: "beautify_try 25 (js ''if x then print(1) end'')
        = Inr (js ''if x then'' @ c_lf # indentChar @ js ''print(1)'' @ c_lf # js ''end'')"
    by code_simp
  have general: "processedCode max_length (js ''if x then print(1) end'')
        = Inr (js ''if x then'' @ c_lf # js '' print(1)'' @ c_lf # c_lf # js ''end'')
      \<and> beautifyCode max_length (js ''if x then print(1) end'')
        = Inr (js ''if x then'' @ c_lf # indentChar @ js ''print(1)'' @ c_lf # js ''end'')"
    if "25 \<le> max_length"
    using processedCode_mono [OF p that] beautify_try_mono [OF t that]
    by (simp add: beautifyCode_def)
  have lines: "split_lf (js ''if x then'' @ c_lf # js '' print(1)'' @ c_lf # c_lf # js ''end'')
        = [js ''if x then'', js '' print(1)'', [], js ''end'']"
    "split_lf (js ''if x then'' @ c_lf # indentChar @ js ''print(1)'' @ c_lf # js ''end'')
        = [js ''if x then'', js ''  print(1)'', js ''end'']"
    by code_simp+
  have words: "regex_test (word_alt_m openers) (js ''if x then'')
   \<and> \<not> regex_test (word_alt_m [js ''end'']) (js ''if x then'')
   \<and> \<not> match_at_start [js ''else'', js ''elseif''] (js ''if x then'')
   \<and> \<not> match_at_start closers (js ''if x then'')
   \<and> \<not> regex_test (word_alt_m openers) (js ''print(1)'')
   \<and> \<not> match_at_start closers (js ''print(1)'')
   \<and> match_at_start closers (js ''end'')
   \<and> \<not> regex_test (word_alt_m openers) (js ''end'')"
    by code_simp
  from general lines words show ?thesis by blast
qed

theorem beautifyCode_if_then_end_witness:
  "(25::nat) \<le> 536870888
   \<and> beautifyCode 536870888 (js ''if x then print(1) end'')
       = Inr (js ''if x then'' @ c_lf # js ''  print(1)'' @ c_lf # js ''end'')"
proof -
  have h: "(25::nat) \<le> 536870888" by simp
  have e: "js ''if x then'' @ c_lf # indentChar @ js ''print(1)'' @ c_lf # js ''end''
           = js ''if x then'' @ c_lf # js ''  print(1)'' @ c_lf # js ''end''"
    by code_simp
  from beautifyCode_if_then_end [of 536870888] h
  have "beautifyCode 536870888 (js ''if x then print(1) end'')
        = Inr (js ''if x then'' @ c_lf # indentChar @ js ''print(1)'' @ c_lf # js ''end'')"
    by blast
  with h show ?thesis unfolding e by blast
qed

text \<open>
  The result does not come from the rule that a line with an opening keyword and the whole
  word \<^verbatim>\<open>end\<close> leaves the depth alone: no line that the loop gets holds both.
\<close>

theorem beautifyCode_if_then_end_counterexample:
  "processedCode 25 (js ''if x then print(1) end'')
     = Inr (js ''if x then'' @ c_lf # js '' print(1)'' @ c_lf # c_lf # js ''end'')
   \<and> list_all (\<lambda>l. \<not> (regex_test (word_alt_m openers) (js_trim l)
                        \<and> regex_test (word_alt_m [js ''end'']) (js_trim l)))
       (split_lf (js ''if x then'' @ c_lf # js '' print(1)'' @ c_lf # c_lf # js ''end''))"
  by code_simp

section \<open>The detector and \<^verbatim>\<open>--[\<close>\<close>

text \<open>
  Claim C2. \<open>hasComments\<close> should hold exactly when the text has a long-bracket comment or
  a \<^verbatim>\<open>--\<close> that does not begin a long-bracket opener. On \<^verbatim>\<open>--[x\<close> and on \<^verbatim>\<open>--=[ x\<close> the
  \<^verbatim>\<open>--\<close> begins no opener, yet \<open>hasComments\<close> is false and \<open>deleteAllComments\<close> removes
  nothing: the lookahead \<^verbatim>\<open>(?![\[=]*\[)\<close> refuses every \<^verbatim>\<open>--\<close> followed by a run of \<^verbatim>\<open>=\<close> and
  one \<^verbatim>\<open>[\<close>. The preserve branch of \<open>toOneLiner\<close> does take \<^verbatim>\<open>--=[ x\<close> for a comment.
\<close>

theorem hasComments_misses_bracket:
  "hasComments (js ''--[x'') = False \<and> spec_hasComments (js ''--[x'') = True
   \<and> deleteAllComments (js ''--[x'') = js ''--[x''
   \<and> hasComments (js ''--=[ x'') = False \<and> spec_hasComments (js ''--=[ x'') = True
   \<and> toOneLiner (js ''--=[ x'') Preserve = js ''--[[ =[ x ]]''"
  by code_simp


section \<open>Unterminated openers\<close>

lemma in_occurrences:
  "i \<in> set (occurrences w s) \<longleftrightarrow> i \<le> length s \<and> starts_with w (drop i s)"
  by (auto simp: occurrences_def less_Suc_eq_le simp del: upt_Suc)

lemma occurrence_of_suffix:
  "s = u @ v \<Longrightarrow> starts_with w v \<Longrightarrow> length u \<in> set (occurrences w s)"
  by (simp add: in_occurrences)

lemma find_first_occurrence:
  "find_first w s = Some j \<Longrightarrow> j \<in> set (occurrences w s)"
proof (induction s arbitrary: j)
  case Nil
  then show ?case by (auto simp: in_occurrences split: if_splits)
next
  case (Cons c cs)
  show ?case
  proof (cases "starts_with w (c # cs)")
    case True
    with Cons.prems show ?thesis by (simp add: in_occurrences)
  next
    case False
    with Cons.prems obtain k where k: "find_first w cs = Some k" "j = Suc k" by auto
    from Cons.IH [OF k(1)] k(2) show ?thesis by (simp add: in_occurrences)
  qed
qed

lemma find_first_no_occurrence: "occurrences w s = [] \<Longrightarrow> find_first w s = None"
  using find_first_occurrence [of w s] by (cases "find_first w s") auto

lemma long_comment_m_opener:
  "long_comment_m p (lb_open n @ post)
     = (case find_first (lb_close n) post of
          Some j \<Rightarrow> Some (length (lb_open n) + j + (n + 2), replicate n c_eq)
        | None \<Rightarrow> None)"
proof -
  have tw: "takeWhile (\<lambda>x. x = c_eq) (replicate n c_eq @ c_lbr # post) = replicate n c_eq"
    by (simp add: takeWhile_append)
  have dw: "dropWhile (\<lambda>x. x = c_eq) (replicate n c_eq @ c_lbr # post) = c_lbr # post"
    by (simp add: dropWhile_append)
  show ?thesis
    by (simp add: long_comment_m_def lb_open_def js_simps cu_def tw dw lb_close_def
          split: option.splits)
qed

lemma no_dashes_no_match:
  assumes "\<not> starts_with (js ''--'') v"
  shows "long_comment_m p v = None" "line_comment_m p v = None"
    "line_comment_start_m p v = None" "preserve_m p v = None"
  using assms
  by (auto simp: long_comment_m_def line_comment_m_def line_comment_start_m_def
        preserve_m_def starts_with_def js_simps cu_def split: list.splits)

lemma opener_no_line_comment:
  "line_comment_m p (lb_open n @ post) = None" "line_comment_start_m p (lb_open n @ post) = None"
  by (simp_all add: line_comment_m_def line_comment_start_m_def lb_open_def js_simps cu_def
        no_bracket_ahead_def)

lemma test_from_none:
  assumes "\<And>p' u v. s = u @ v \<Longrightarrow> m p' v = None"
  shows "\<not> test_from m p s"
  using assms
proof (induction s arbitrary: p)
  case Nil
  then show ?case by simp
next
  case (Cons c cs)
  have "m p (c # cs) = None" using Cons.prems [of "[]" "c # cs"] by simp
  moreover have "\<not> test_from m (Some c) cs"
  proof (rule Cons.IH)
    fix p' u v assume "cs = u @ v"
    then show "m p' v = None" using Cons.prems [of "c # u" v] by simp
  qed
  ultimately show ?case by simp
qed

lemma unterminated_no_match:
  assumes only: "occurrences (js ''--'') (pre @ lb_open n @ post) = [length pre]"
    and open_end: "occurrences (lb_close n) post = []"
    and split: "pre @ lb_open n @ post = u @ v"
  shows "long_comment_m p v = None" "line_comment_m p v = None" "line_comment_start_m p v = None"
proof -
  have "long_comment_m p v = None \<and> line_comment_m p v = None \<and> line_comment_start_m p v = None"
  proof (cases "starts_with (js ''--'') v")
    case False
    then show ?thesis by (simp add: no_dashes_no_match)
  next
    case True
    from occurrence_of_suffix [OF split True] only have "length u = length pre" by simp
    with split have "v = lb_open n @ post" by simp
    then show ?thesis
      by (simp add: long_comment_m_opener find_first_no_occurrence [OF open_end]
            opener_no_line_comment)
  qed
  then show "long_comment_m p v = None" "line_comment_m p v = None"
    "line_comment_start_m p v = None" by simp_all
qed

text \<open>
  Claim C9, amended. When the only \<^verbatim>\<open>--\<close> of the input begins a long-bracket opener that no
  closer with the same number of \<^verbatim>\<open>=\<close> follows, \<open>hasComments\<close> is false and
  \<open>deleteAllComments\<close> removes no comment: it returns the input with its blank lines
  dropped, and the input itself when that contains no \<^verbatim>\<open>\r\<close> and no \<^verbatim>\<open>\n\<close>.
\<close>

theorem unterminated_opener_not_a_comment:
  assumes "occurrences (js ''--'') (pre @ lb_open n @ post) = [length pre]"
    and "occurrences (lb_close n) post = []"
  shows "\<not> hasComments (pre @ lb_open n @ post)
    \<and> deleteAllComments (pre @ lb_open n @ post)
        = replace_all blank_line_m delete_match (pre @ lb_open n @ post)
    \<and> ((\<forall>c\<in>set (pre @ post). \<not> is_cr_lf c) \<longrightarrow>
         deleteAllComments (pre @ lb_open n @ post) = pre @ lb_open n @ post)"
proof -
  let ?t = "pre @ lb_open n @ post"
  note nm = unterminated_no_match [OF assms]
  have "\<not> test_from long_comment_m None ?t" by (rule test_from_none) (rule nm(1))
  moreover have "\<not> test_from line_comment_start_m None ?t" by (rule test_from_none) (rule nm(3))
  ultimately have no: "\<not> hasComments ?t" by (simp add: hasComments_def regex_test_def)
  have 1: "replace_all long_comment_m delete_match ?t = ?t"
    unfolding replace_all_def by (rule replace_global_id) (rule nm(1))
  have 2: "replace_all line_comment_m delete_match ?t = ?t"
    unfolding replace_all_def by (rule replace_global_id) (rule nm(2))
  have del: "deleteAllComments ?t = replace_all blank_line_m delete_match ?t"
    by (simp add: deleteAllComments_def 1 2)
  have same: "replace_all blank_line_m delete_match ?t = ?t" if "\<forall>c\<in>set (pre @ post). \<not> is_cr_lf c"
    unfolding replace_all_def
  proof (rule replace_global_id)
    fix p' u v assume "?t = u @ v"
    then have "set v \<subseteq> set ?t" by (metis set_append sup_ge2)
    moreover have "\<forall>c\<in>set ?t. \<not> is_cr_lf c"
      using that by (auto simp: lb_open_def js_simps cu_def is_cr_lf_def)
    ultimately show "blank_line_m p' v = None" by (intro blank_line_m_no_eol) blast
  qed
  from no del same show ?thesis by simp
qed

theorem unterminated_opener_not_a_comment_witness:
  "occurrences (js ''--'') (js ''x '' @ lb_open 1 @ js '' y ]]'') = [length (js ''x '')]
   \<and> occurrences (lb_close 1) (js '' y ]]'') = []
   \<and> list_all (\<lambda>c. \<not> is_cr_lf c) (js ''x '' @ js '' y ]]'')
   \<and> \<not> hasComments (js ''x --[=[ y ]]'')
   \<and> deleteAllComments (js ''x --[=[ y ]]'') = js ''x --[=[ y ]]''"
proof -
  have h1: "occurrences (js ''--'') (js ''x '' @ lb_open 1 @ js '' y ]]'') = [length (js ''x '')]"
    by code_simp
  have h2: "occurrences (lb_close 1) (js '' y ]]'') = []"
    by code_simp
  have h3: "list_all (\<lambda>c. \<not> is_cr_lf c) (js ''x '' @ js '' y ]]'')"
    by code_simp
  then have h3': "\<forall>c\<in>set (js ''x '' @ js '' y ]]''). \<not> is_cr_lf c"
    by (simp only: list_all_iff)
  have e: "js ''x '' @ lb_open 1 @ js '' y ]]'' = js ''x --[=[ y ]]''"
    by code_simp
  from unterminated_opener_not_a_comment [OF h1 h2] h3'
  have "\<not> hasComments (js ''x '' @ lb_open 1 @ js '' y ]]'')
    \<and> deleteAllComments (js ''x '' @ lb_open 1 @ js '' y ]]'') = js ''x '' @ lb_open 1 @ js '' y ]]''"
    by blast
  then have "\<not> hasComments (js ''x --[=[ y ]]'')
    \<and> deleteAllComments (js ''x --[=[ y ]]'') = js ''x --[=[ y ]]''"
    unfolding e .
  with h1 h2 h3 show ?thesis by blast
qed

text \<open>
  The input is not always returned unchanged: a blank line behind an unterminated opener
  is dropped.
\<close>

theorem unterminated_opener_counterexample:
  "occurrences (js ''--'') (js ''--[[ x'' @ [c_lf, c_lf] @ js ''y'') = [0]
   \<and> opener_at (js ''--[[ x'' @ [c_lf, c_lf] @ js ''y'') = Some (0, js '' x'' @ [c_lf, c_lf] @ js ''y'')
   \<and> occurrences (lb_close 0) (js '' x'' @ [c_lf, c_lf] @ js ''y'') = []
   \<and> deleteAllComments (js ''--[[ x'' @ [c_lf, c_lf] @ js ''y'') = js ''--[[ x'' @ [c_lf] @ js ''y''
   \<and> deleteAllComments (js ''--[[ x'' @ [c_lf, c_lf] @ js ''y'') \<noteq> js ''--[[ x'' @ [c_lf, c_lf] @ js ''y''"
  by code_simp

section \<open>Blank lines\<close>

lemma cr_lf_ws: "is_cr_lf c \<Longrightarrow> is_ws c"
  by (auto simp: is_cr_lf_def is_ws_def)

lemma cr_lf_line_terminator: "is_cr_lf c \<Longrightarrow> is_line_terminator c"
  by (auto simp: is_cr_lf_def is_line_terminator_def)

lemma blank_line_m_iff:
  "blank_line_m p s \<noteq> None \<longleftrightarrow> line_start p \<and> (\<exists>c\<in>set (takeWhile is_ws s). is_cr_lf c)"
proof -
  have "dropWhile (\<lambda>x. \<not> is_cr_lf x) (rev (takeWhile is_ws s)) \<noteq> []
        \<longleftrightarrow> (\<exists>c\<in>set (takeWhile is_ws s). is_cr_lf c)"
    by (simp only: dropWhile_eq_Nil_conv) auto
  then show ?thesis by (auto simp: blank_line_m_def Let_def)
qed

lemma blank_line_m_Some:
  assumes "blank_line_m p s = Some (n, g)"
  shows "0 < n \<and> n \<le> length s \<and> line_start p \<and> is_cr_lf (s ! (n - 1))"
proof -
  define run where "run = takeWhile is_ws s"
  define b where "b = dropWhile (\<lambda>x. \<not> is_cr_lf x) (rev run)"
  from assms have n: "n = length b" "0 < n" "line_start p"
    by (auto simp: blank_line_m_def Let_def b_def run_def split: if_splits)
  then obtain x b' where b: "b = x # b'" by (cases b) auto
  have x: "is_cr_lf x" using b hd_dropWhile [of "\<lambda>x. \<not> is_cr_lf x" "rev run"] by (auto simp: b_def)
  have "rev run = takeWhile (\<lambda>x. \<not> is_cr_lf x) (rev run) @ b"
    by (simp add: b_def)
  then have run: "run = rev b @ rev (takeWhile (\<lambda>x. \<not> is_cr_lf x) (rev run))"
    by (metis rev_append rev_rev_ident)
  have s: "s = run @ dropWhile is_ws s" by (simp add: run_def)
  have len: "n \<le> length run" using run n(1) by (metis length_append length_rev le_add1)
  then have "n \<le> length s" using s by (metis length_append trans_le_add1)
  moreover have "s ! (n - 1) = x"
  proof -
    have "n - 1 < length run" using len n(2) by simp
    then have "s ! (n - 1) = run ! (n - 1)" using s by (metis nth_append)
    also have "\<dots> = rev b ! (n - 1)" using run n by (metis diff_less length_rev nth_append zero_less_one)
    also have "\<dots> = x" using b n(1) by (simp add: nth_append)
    finally show ?thesis .
  qed
  ultimately show ?thesis using n x by simp
qed

lemma delete_match_Nil: "delete_match mt g = []"
  by (simp add: delete_match_def)

lemma replace_global_delete:
  "m p (c # cs) = Some (n, g) \<Longrightarrow> 0 < n \<Longrightarrow>
   replace_global m delete_match p (c # cs)
     = replace_global m delete_match (Some ((c # cs) ! (n - 1))) (drop n (c # cs))"
  by (simp add: delete_match_Nil)

lemma blank_line_m_prev:
  "line_start p = line_start q \<Longrightarrow> blank_line_m p s = blank_line_m q s"
  by (simp add: blank_line_m_def)

lemma run_kept:
  "\<forall>c\<in>set (takeWhile is_ws s). \<not> is_cr_lf c \<Longrightarrow>
   takeWhile is_ws (replace_global blank_line_m delete_match p s) = takeWhile is_ws s"
proof (induction s arbitrary: p)
  case Nil
  then show ?case by (simp add: blank_line_m_def)
next
  case (Cons c cs)
  have none: "blank_line_m p (c # cs) = None"
    using Cons.prems blank_line_m_iff [of p "c # cs"] by blast
  show ?case
  proof (cases "is_ws c")
    case True
    with Cons.prems have "\<forall>c\<in>set (takeWhile is_ws cs). \<not> is_cr_lf c" by simp
    from Cons.IH [OF this] none True show ?thesis by simp
  next
    case False
    with none show ?thesis by simp
  qed
qed

lemma no_blank_left:
  "replace_global blank_line_m delete_match p s = u @ v \<Longrightarrow>
   blank_line_m (if u = [] then p else Some (last u)) v = None"
proof (induction p s arbitrary: u v rule: scan_induct [where m = blank_line_m])
  case (Nil p)
  then show ?case by (simp add: blank_line_m_def)
next
  case (Skip p c cs)
  let ?out = "replace_global blank_line_m delete_match (Some c) cs"
  from Skip.hyps Skip.prems have out: "c # ?out = u @ v" by simp
  show ?case
  proof (cases u)
    case Nil
    with out have v: "v = c # ?out" by simp
    have full: "replace_global blank_line_m delete_match p (c # cs) = c # ?out"
      using Skip.hyps by simp
    have "blank_line_m p v = None"
    proof (cases "line_start p")
      case False
      then show ?thesis using blank_line_m_iff [of p v] by blast
    next
      case True
      then have clean: "\<forall>x\<in>set (takeWhile is_ws (c # cs)). \<not> is_cr_lf x"
        using Skip.hyps blank_line_m_iff [of p "c # cs"] by blast
      from run_kept [OF clean, of p] have "takeWhile is_ws v = takeWhile is_ws (c # cs)"
        unfolding full v .
      with clean show ?thesis using blank_line_m_iff [of p v] by metis
    qed
    with Nil show ?thesis by simp
  next
    case (Cons x u')
    with out have "?out = u' @ v" "x = c" by auto
    from Skip.IH [OF this(1)] Cons \<open>x = c\<close> show ?thesis by (cases u') simp_all
  qed
next
  case (Empty p c cs g)
  from blank_line_m_Some [OF Empty.hyps] show ?case by simp
next
  case (Match p c cs n g)
  let ?e = "(c # cs) ! (n - 1)"
  from blank_line_m_Some [OF Match.hyps(1)]
  have e: "line_start p" "is_cr_lf ?e" by simp_all
  from Match.prems
  have "replace_global blank_line_m delete_match (Some ?e) (drop n (c # cs)) = u @ v"
    unfolding replace_global_delete [of blank_line_m, OF Match.hyps] .
  from Match.IH [OF this]
  have ih: "blank_line_m (if u = [] then Some ?e else Some (last u)) v = None" .
  show ?case
  proof (cases "u = []")
    case True
    have "line_start p = line_start (Some ?e)"
      using e cr_lf_line_terminator [OF e(2)] by (simp add: line_start_def)
    from blank_line_m_prev [OF this] ih True show ?thesis by simp
  next
    case False
    with ih show ?thesis by simp
  qed
qed

lemma blank_line_at_match:
  assumes "blank_line_at s i j"
  shows "blank_line_m (prev_at s i) (drop i s) \<noteq> None"
proof -
  let ?v = "drop i s"
  let ?k = "j - i"
  from assms have ij: "i \<le> j" "j < length s" and ls: "line_start (prev_at s i)"
    and ws: "\<forall>k\<in>{i..<j}. is_ws (s ! k)" and eol: "is_cr_lf (s ! j)"
    by (simp_all add: blank_line_at_def)
  have vk: "?v ! ?k = s ! j" using ij by simp
  have all: "is_ws (?v ! k')" if "k' \<le> ?k" for k'
  proof (cases "k' = ?k")
    case True
    then show ?thesis using vk eol cr_lf_ws by simp
  next
    case False
    with that have "i + k' \<in> {i..<j}" by auto
    with ws have "is_ws (s ! (i + k'))" by blast
    then show ?thesis using ij that by simp
  qed
  have "?k < length (takeWhile is_ws ?v)"
  proof (rule ccontr)
    assume "\<not> ?k < length (takeWhile is_ws ?v)"
    then have le: "length (takeWhile is_ws ?v) \<le> ?k" by simp
    moreover have "?k < length ?v" using ij by simp
    ultimately have "length (takeWhile is_ws ?v) < length ?v" by simp
    from nth_length_takeWhile [OF this] all [OF le] show False by simp
  qed
  then have "takeWhile is_ws ?v ! ?k \<in> set (takeWhile is_ws ?v)" by simp
  moreover have "takeWhile is_ws ?v ! ?k = s ! j"
    using \<open>?k < length (takeWhile is_ws ?v)\<close> vk by (simp add: takeWhile_nth)
  ultimately have "\<exists>c\<in>set (takeWhile is_ws ?v). is_cr_lf c" using eol by metis
  with ls have "line_start (prev_at s i) \<and> (\<exists>c\<in>set (takeWhile is_ws ?v). is_cr_lf c)" by simp
  then show ?thesis by (rule iffD2 [OF blank_line_m_iff])
qed

lemma no_blank_line_after_replace:
  "\<not> blank_line_at (replace_all blank_line_m delete_match s) i j"
proof
  let ?out = "replace_all blank_line_m delete_match s"
  assume a: "blank_line_at ?out i j"
  then have ij: "i \<le> j" "j < length ?out" by (simp_all add: blank_line_at_def)
  have "replace_global blank_line_m delete_match None s = take i ?out @ drop i ?out"
    by (simp add: replace_all_def)
  from no_blank_left [OF this]
  have "blank_line_m (if take i ?out = [] then None else Some (last (take i ?out))) (drop i ?out) = None" .
  moreover have "(if take i ?out = [] then None else Some (last (take i ?out))) = prev_at ?out i"
  proof (cases "i = 0")
    case True
    then show ?thesis by (simp add: prev_at_def)
  next
    case False
    then have ne: "take i ?out \<noteq> []" using ij by auto
    then have "last (take i ?out) = take i ?out ! (length (take i ?out) - 1)"
      by (rule last_conv_nth)
    also have "\<dots> = ?out ! (i - 1)" using False ij by simp
    finally show ?thesis using False ne by (simp add: prev_at_def)
  qed
  ultimately show False using blank_line_at_match [OF a] by simp
qed

text \<open>
  Claim C8, amended. The result of \<open>deleteAllComments\<close> contains no empty or
  whitespace-only line that is ended by \<^verbatim>\<open>\r\<close> or \<^verbatim>\<open>\n\<close>.
\<close>

theorem deleteAllComments_no_blank_line:
  "\<not> blank_line_at (deleteAllComments code) i j"
  by (simp add: deleteAllComments_def no_blank_line_after_replace)

theorem deleteAllComments_no_blank_line_witness:
  "deleteAllComments (js ''a -- c'' @ [c_lf, c_sp, c_lf] @ js ''  b'') = js ''a '' @ [c_lf] @ js ''  b''
   \<and> blank_line_at (js ''a -- c'' @ [c_lf, c_sp, c_lf] @ js ''  b'') 7 8
   \<and> line_start (prev_at (js ''a '' @ [c_lf] @ js ''  b'') 3)
   \<and> list_all (\<lambda>k. is_ws ((js ''a '' @ [c_lf] @ js ''  b'') ! k)) [3..<5]
   \<and> \<not> blank_line_at (js ''a '' @ [c_lf] @ js ''  b'') 3 5"
proof -
  have e: "deleteAllComments (js ''a -- c'' @ [c_lf, c_sp, c_lf] @ js ''  b'') = js ''a '' @ [c_lf] @ js ''  b''"
    by code_simp
  have b: "blank_line_at (js ''a -- c'' @ [c_lf, c_sp, c_lf] @ js ''  b'') 7 8"
    by code_simp
  have l: "line_start (prev_at (js ''a '' @ [c_lf] @ js ''  b'') 3)"
    by code_simp
  have w: "list_all (\<lambda>k. is_ws ((js ''a '' @ [c_lf] @ js ''  b'') ! k)) [3..<5]"
    by code_simp
  from deleteAllComments_no_blank_line [of "js ''a -- c'' @ [c_lf, c_sp, c_lf] @ js ''  b''" 3 5]
  have "\<not> blank_line_at (js ''a '' @ [c_lf] @ js ''  b'') 3 5"
    unfolding e .
  with e b l w show ?thesis by blast
qed

text \<open>
  A whitespace-only last line with no line end behind it is kept: \<^verbatim>\<open>/^\s*[\r\n]/gm\<close> needs
  the \<^verbatim>\<open>\r\<close> or \<^verbatim>\<open>\n\<close>.
\<close>

theorem deleteAllComments_blank_counterexample:
  "deleteAllComments (js ''a'' @ [c_lf, c_sp]) = js ''a'' @ [c_lf, c_sp]
   \<and> split_lf (deleteAllComments (js ''a'' @ [c_lf, c_sp])) = [js ''a'', js '' '']
   \<and> js_trim (js '' '') = []"
  by code_simp

section \<open>What a deleting pass keeps\<close>

lemma replace_global_delete_Nil: "replace_global m delete_match p [] = []"
  by (simp add: delete_match_Nil split: option.splits)

lemma replace_global_delete_empty:
  "m p (c # cs) = Some (0, g) \<Longrightarrow>
   replace_global m delete_match p (c # cs) = c # replace_global m delete_match (Some c) cs"
  by (simp add: delete_match_Nil)

lemma delete_decompose:
  "replace_global m delete_match p s = a @ t \<Longrightarrow>
   \<exists>a0 t0 p'. s = a0 @ t0 \<and> replace_global m delete_match p' t0 = t"
proof (induction p s arbitrary: a rule: scan_induct [where m = m])
  case (Nil p)
  then have "t = []" unfolding replace_global_delete_Nil by simp
  then show ?case using replace_global_delete_Nil by blast
next
  case (Skip p c cs)
  show ?case
  proof (cases a)
    case Nil
    with Skip.prems have "c # cs = [] @ (c # cs) \<and> replace_global m delete_match p (c # cs) = t"
      by simp
    then show ?thesis by blast
  next
    case (Cons x a')
    with Skip.prems Skip.hyps have "replace_global m delete_match (Some c) cs = a' @ t" by auto
    from Skip.IH [OF this] obtain a0 t0 p' where "cs = a0 @ t0" "replace_global m delete_match p' t0 = t"
      by blast
    then have "c # cs = (c # a0) @ t0" by simp
    with \<open>replace_global m delete_match p' t0 = t\<close> show ?thesis by blast
  qed
next
  case (Empty p c cs g)
  show ?case
  proof (cases a)
    case Nil
    with Empty.prems have "c # cs = [] @ (c # cs) \<and> replace_global m delete_match p (c # cs) = t"
      by simp
    then show ?thesis by blast
  next
    case (Cons x a')
    with Empty.prems have "replace_global m delete_match (Some c) cs = a' @ t"
      unfolding replace_global_delete_empty [of m, OF Empty.hyps] by auto
    from Empty.IH [OF this] obtain a0 t0 p' where "cs = a0 @ t0" "replace_global m delete_match p' t0 = t"
      by blast
    then have "c # cs = (c # a0) @ t0" by simp
    with \<open>replace_global m delete_match p' t0 = t\<close> show ?thesis by blast
  qed
next
  case (Match p c cs n g)
  from Match.prems
  have "replace_global m delete_match (Some ((c # cs) ! (n - 1))) (drop n (c # cs)) = a @ t"
    unfolding replace_global_delete [of m, OF Match.hyps] .
  from Match.IH [OF this] obtain a0 t0 p'
    where d: "drop n (c # cs) = a0 @ t0" "replace_global m delete_match p' t0 = t" by blast
  have "c # cs = (take n (c # cs) @ a0) @ t0"
    using d(1) by (metis append_assoc append_take_drop_id)
  with d(2) show ?case by blast
qed

lemma test_from_iff:
  "test_from m p s \<longleftrightarrow>
   (\<exists>u v. s = u @ v \<and> m (if u = [] then p else Some (last u)) v \<noteq> None)"
proof (induction s arbitrary: p)
  case Nil
  then show ?case by simp
next
  case (Cons c cs)
  show ?case
  proof
    assume "test_from m p (c # cs)"
    then consider "m p (c # cs) \<noteq> None" | "test_from m (Some c) cs" by auto
    then show "\<exists>u v. c # cs = u @ v \<and> m (if u = [] then p else Some (last u)) v \<noteq> None"
    proof cases
      case 1
      then have "c # cs = [] @ (c # cs) \<and> m (if [] = ([]::jstring) then p else Some (last [])) (c # cs) \<noteq> None"
        by simp
      then show ?thesis by blast
    next
      case 2
      then have "\<exists>u v. cs = u @ v \<and> m (if u = [] then Some c else Some (last u)) v \<noteq> None"
        by (rule iffD1 [OF Cons.IH])
      then obtain u v
        where uv: "cs = u @ v" "m (if u = [] then Some c else Some (last u)) v \<noteq> None" by blast
      then have "c # cs = (c # u) @ v \<and> m (if c # u = [] then p else Some (last (c # u))) v \<noteq> None"
        by auto
      then show ?thesis by blast
    qed
  next
    assume "\<exists>u v. c # cs = u @ v \<and> m (if u = [] then p else Some (last u)) v \<noteq> None"
    then obtain u v where uv: "c # cs = u @ v" "m (if u = [] then p else Some (last u)) v \<noteq> None"
      by blast
    show "test_from m p (c # cs)"
    proof (cases u)
      case Nil
      with uv have "m p (c # cs) \<noteq> None" by simp
      then show ?thesis by simp
    next
      case (Cons x u')
      with uv have "cs = u' @ v" "m (if u' = [] then Some c else Some (last u')) v \<noteq> None"
        by (auto split: if_splits)
      then have "\<exists>u v. cs = u @ v \<and> m (if u = [] then Some c else Some (last u)) v \<noteq> None"
        by (intro exI [of _ u'] exI [of _ v]) simp
      then have "test_from m (Some c) cs" by (rule iffD2 [OF Cons.IH])
      then show ?thesis by simp
    qed
  qed
qed

subsection \<open>What the comment expressions match\<close>

lemma find_first_Some:
  "find_first w s = Some j \<Longrightarrow> \<exists>rest. s = take j s @ w @ rest \<and> j \<le> length s"
proof -
  assume "find_first w s = Some j"
  from find_first_occurrence [OF this] have j: "j \<le> length s" "starts_with w (drop j s)"
    by (simp_all add: in_occurrences)
  then have "drop j s = w @ drop (length w) (drop j s)"
    unfolding starts_with_def by (metis append_take_drop_id)
  then have "s = take j s @ w @ drop (length w) (drop j s)"
    by (metis append_take_drop_id)
  with j show ?thesis by blast
qed

lemma find_first_occurs: "find_first w (body @ w @ rest) \<noteq> None"
proof (induction body)
  case Nil
  have "starts_with w (w @ rest)" by (simp add: starts_with_def)
  then show ?case by (cases "w @ rest") auto
next
  case (Cons b bs)
  then show ?case by simp
qed

lemma takeWhile_eq_replicate: "takeWhile (\<lambda>x. x = c) r = replicate (length (takeWhile (\<lambda>x. x = c) r)) c"
  by (induction r) auto

lemma long_comment_m_iff:
  "long_comment_m p v \<noteq> None \<longleftrightarrow> (\<exists>n body rest. v = lb_open n @ body @ lb_close n @ rest)"
proof
  assume "\<exists>n body rest. v = lb_open n @ body @ lb_close n @ rest"
  then obtain n body rest where "v = lb_open n @ body @ lb_close n @ rest" by blast
  then show "long_comment_m p v \<noteq> None"
    using find_first_occurs [of "lb_close n" body rest]
    by (auto simp: long_comment_m_opener split: option.splits)
next
  assume m: "long_comment_m p v \<noteq> None"
  then obtain r where v: "v = c_dash # c_dash # c_lbr # r"
    using long_comment_m_dashes by blast
  define n where "n = length (takeWhile (\<lambda>x. x = c_eq) r)"
  have eqs: "takeWhile (\<lambda>x. x = c_eq) r = replicate n c_eq"
    unfolding n_def by (rule takeWhile_eq_replicate)
  obtain body' where dw: "dropWhile (\<lambda>x. x = c_eq) r = c_lbr # body'"
  proof (cases "dropWhile (\<lambda>x. x = c_eq) r")
    case Nil
    then have "long_comment_m p v = None" using v by (simp add: long_comment_m_def Let_def del: dropWhile_eq_Nil_conv)
    with m show ?thesis by simp
  next
    case (Cons d body)
    have "d = c_lbr"
    proof (rule ccontr)
      assume "d \<noteq> c_lbr"
      then have "long_comment_m p v = None" using v Cons by (simp add: long_comment_m_def Let_def)
      with m show False by simp
    qed
    with Cons that show ?thesis by simp
  qed
  have r: "r = replicate n c_eq @ c_lbr # body'"
    using takeWhile_dropWhile_id [of "\<lambda>x. x = c_eq" r] eqs dw by simp
  then have vo: "v = lb_open n @ body'" using v by (simp add: lb_open_def js_simps cu_def)
  with m obtain j where "find_first (lb_close n) body' = Some j"
    by (auto simp: long_comment_m_opener split: option.splits)
  from find_first_Some [OF this] obtain rest where "body' = take j body' @ lb_close n @ rest"
    by blast
  with vo have "v = lb_open n @ take j body' @ lb_close n @ rest" by simp
  then show "\<exists>n body rest. v = lb_open n @ body @ lb_close n @ rest" by blast
qed

lemma line_comment_start_m_iff:
  "line_comment_start_m p v \<noteq> None \<longleftrightarrow> (\<exists>r. v = c_dash # c_dash # r \<and> no_bracket_ahead r)"
  by (auto simp: line_comment_start_m_def split: list.splits)

lemma line_comment_m_iff:
  "line_comment_m p v \<noteq> None \<longleftrightarrow> (\<exists>r. v = c_dash # c_dash # r \<and> no_bracket_ahead r)"
  by (auto simp: line_comment_m_def split: list.splits)

lemma has_long_iff:
  "test_from long_comment_m p s \<longleftrightarrow> (\<exists>u n body rest. s = u @ lb_open n @ body @ lb_close n @ rest)"
proof -
  have "test_from long_comment_m p s
        \<longleftrightarrow> (\<exists>u v. s = u @ v \<and> (\<exists>n body rest. v = lb_open n @ body @ lb_close n @ rest))"
    unfolding test_from_iff long_comment_m_iff ..
  also have "\<dots> \<longleftrightarrow> (\<exists>u n body rest. s = u @ lb_open n @ body @ lb_close n @ rest)"
    by (intro iffI; elim exE conjE; hypsubst; (intro exI conjI)?; rule refl)
  finally show ?thesis .
qed

lemma has_line_iff:
  "test_from line_comment_start_m p s \<longleftrightarrow> (\<exists>u r. s = u @ c_dash # c_dash # r \<and> no_bracket_ahead r)"
proof -
  have "test_from line_comment_start_m p s
        \<longleftrightarrow> (\<exists>u v. s = u @ v \<and> (\<exists>r. v = c_dash # c_dash # r \<and> no_bracket_ahead r))"
    unfolding test_from_iff line_comment_start_m_iff ..
  also have "\<dots> \<longleftrightarrow> (\<exists>u r. s = u @ c_dash # c_dash # r \<and> no_bracket_ahead r)"
    by blast
  finally show ?thesis .
qed

subsection \<open>The single-line pass\<close>

lemma line_terminator_not_dash: "is_line_terminator c \<Longrightarrow> c \<noteq> c_dash"
  by (auto simp: is_line_terminator_def)

lemma line_comment_m_Some:
  assumes "line_comment_m p s = Some (n, g)"
  shows "0 < n \<and> (drop n s = [] \<or> is_line_terminator (hd (drop n s)))"
proof -
  from assms obtain r where s: "s = c_dash # c_dash # r"
    and n: "n = 2 + length (takeWhile (\<lambda>x. \<not> is_line_terminator x) r)"
    by (auto simp: line_comment_m_def split: list.splits if_splits)
  have "drop n s = dropWhile (\<lambda>x. \<not> is_line_terminator x) r"
    using s n by (simp add: dropWhile_eq_drop)
  moreover have "dropWhile (\<lambda>x. \<not> is_line_terminator x) r = []
       \<or> is_line_terminator (hd (dropWhile (\<lambda>x. \<not> is_line_terminator x) r))"
    using hd_dropWhile [of "\<lambda>x. \<not> is_line_terminator x" r] by blast
  ultimately show ?thesis using n by simp
qed

lemma strip_starts_eol:
  assumes "s = [] \<or> is_line_terminator (hd s)"
  shows "replace_global line_comment_m delete_match p s = []
         \<or> is_line_terminator (hd (replace_global line_comment_m delete_match p s))"
proof (cases s)
  case Nil
  then show ?thesis by (simp add: delete_match_Nil split: option.splits)
next
  case (Cons c cs)
  with assms have "is_line_terminator c" by simp
  then have "line_comment_m p (c # cs) = None"
    using line_terminator_not_dash by (intro not_dash_no_match) simp
  with Cons \<open>is_line_terminator c\<close> show ?thesis by simp
qed

lemma strip_match_hd:
  assumes "line_comment_m p s = Some (n, g)"
  shows "replace_global line_comment_m delete_match p s = []
         \<or> is_line_terminator (hd (replace_global line_comment_m delete_match p s))"
proof -
  from line_comment_m_Some [OF assms]
  have n: "0 < n" and d: "drop n s = [] \<or> is_line_terminator (hd (drop n s))" by simp_all
  from assms obtain c cs where s: "s = c # cs"
    by (cases s) (auto simp: line_comment_m_def)
  have "replace_global line_comment_m delete_match p s
        = replace_global line_comment_m delete_match (Some (s ! (n - 1))) (drop n s)"
    using replace_global_delete [of line_comment_m p c cs n g] assms n s by simp
  with strip_starts_eol [OF d] show ?thesis by simp
qed

lemma strip_copies:
  "replace_global line_comment_m delete_match p s = w @ b \<Longrightarrow>
   \<forall>c\<in>set w. \<not> is_line_terminator c \<Longrightarrow>
   \<exists>b0 p'. s = w @ b0 \<and> replace_global line_comment_m delete_match p' b0 = b"
proof (induction w arbitrary: p s)
  case Nil
  then show ?case by auto
next
  case (Cons x w)
  let ?out = "replace_global line_comment_m delete_match p s"
  from Cons.prems have out: "?out = x # (w @ b)" and x: "\<not> is_line_terminator x" by simp_all
  have none: "line_comment_m p s = None"
  proof (cases "line_comment_m p s")
    case None
    then show ?thesis .
  next
    case (Some a)
    obtain n g where "a = (n, g)" by (cases a)
    with Some strip_match_hd [of p s n g] out x show ?thesis by simp
  qed
  from out obtain c cs where s: "s = c # cs"
    by (cases s) (auto simp: delete_match_Nil split: option.splits)
  with none out have "c = x" "replace_global line_comment_m delete_match (Some c) cs = w @ b"
    by auto
  from Cons.IH [OF this(2)] Cons.prems(2) obtain b0 p'
    where "cs = w @ b0" "replace_global line_comment_m delete_match p' b0 = b" by auto
  with s \<open>c = x\<close> have "s = (x # w) @ b0" by simp
  with \<open>replace_global line_comment_m delete_match p' b0 = b\<close> show ?case by blast
qed

lemma no_bracket_ahead_simps:
  "no_bracket_ahead [] = True"
  "no_bracket_ahead (c # cs)
     = (if c = c_lbr then False else if c = c_eq then no_bracket_ahead cs else True)"
  by (simp_all add: no_bracket_ahead_def)

lemma bracket_ahead_kept:
  "\<not> no_bracket_ahead b \<Longrightarrow> \<not> no_bracket_ahead (replace_global line_comment_m delete_match p b)"
proof (induction b arbitrary: p)
  case Nil
  then show ?case by (simp add: no_bracket_ahead_simps)
next
  case (Cons c cs)
  from Cons.prems have c: "c = c_lbr \<or> c = c_eq"
    by (auto simp: no_bracket_ahead_simps split: if_splits)
  then have "line_comment_m p (c # cs) = None"
    by (intro not_dash_no_match) auto
  then have out: "replace_global line_comment_m delete_match p (c # cs)
                = c # replace_global line_comment_m delete_match (Some c) cs" by simp
  show ?case
  proof (cases "c = c_lbr")
    case True
    then show ?thesis unfolding out by (simp add: no_bracket_ahead_simps)
  next
    case False
    with c Cons.prems have "c = c_eq" "\<not> no_bracket_ahead cs"
      by (auto simp: no_bracket_ahead_simps)
    with Cons.IH [of "Some c"] show ?thesis unfolding out by (simp add: no_bracket_ahead_simps)
  qed
qed

lemma no_line_comment_left:
  "\<not> test_from line_comment_start_m q (replace_global line_comment_m delete_match p s)"
proof
  assume "test_from line_comment_start_m q (replace_global line_comment_m delete_match p s)"
  then obtain u r where out: "replace_global line_comment_m delete_match p s = u @ c_dash # c_dash # r"
    and r: "no_bracket_ahead r"
    unfolding has_line_iff by blast
  from delete_decompose [OF out] obtain a0 t0 p'
    where t0: "replace_global line_comment_m delete_match p' t0 = [c_dash, c_dash] @ r" by auto
  have none: "line_comment_m p' t0 = None"
  proof (cases "line_comment_m p' t0")
    case None
    then show ?thesis .
  next
    case (Some a)
    obtain n g where "a = (n, g)" by (cases a)
    with Some strip_match_hd [of p' t0 n g] t0 show ?thesis
      by (simp add: is_line_terminator_def)
  qed
  have "\<forall>c\<in>set [c_dash, c_dash]. \<not> is_line_terminator c"
    by (simp add: is_line_terminator_def)
  from strip_copies [OF t0 this] obtain b0 p''
    where b0: "t0 = [c_dash, c_dash] @ b0" "replace_global line_comment_m delete_match p'' b0 = r"
    by blast
  from none b0(1) have "\<not> no_bracket_ahead b0"
    using line_comment_m_iff [of p' t0] by auto
  from bracket_ahead_kept [OF this, of p''] b0(2) r show False by simp
qed

lemma lb_no_line_terminator:
  "\<forall>c\<in>set (lb_open n). \<not> is_line_terminator c" "\<forall>c\<in>set (lb_close n). \<not> is_line_terminator c"
  by (auto simp: lb_open_def lb_close_def js_simps cu_def is_line_terminator_def)

lemma strip_makes_no_long_comment:
  assumes "test_from long_comment_m q (replace_global line_comment_m delete_match p s)"
  shows "test_from long_comment_m q' s"
proof -
  from assms obtain u n body rest
    where out: "replace_global line_comment_m delete_match p s
                = u @ lb_open n @ (body @ lb_close n @ rest)"
    unfolding has_long_iff by auto
  from delete_decompose [OF out] obtain a0 t0 p1
    where 1: "s = a0 @ t0"
      "replace_global line_comment_m delete_match p1 t0 = lb_open n @ (body @ lb_close n @ rest)"
    by blast
  from strip_copies [OF 1(2) lb_no_line_terminator(1)] obtain b0 p2
    where 2: "t0 = lb_open n @ b0"
      "replace_global line_comment_m delete_match p2 b0 = body @ (lb_close n @ rest)"
    by auto
  from delete_decompose [OF 2(2)] obtain a1 t1 p3
    where 3: "b0 = a1 @ t1"
      "replace_global line_comment_m delete_match p3 t1 = lb_close n @ rest"
    by blast
  from strip_copies [OF 3(2) lb_no_line_terminator(2)] obtain b1
    where 4: "t1 = lb_close n @ b1" by auto
  from 1(1) 2(1) 3(1) 4 have "s = a0 @ lb_open n @ a1 @ lb_close n @ b1" by simp
  then show ?thesis unfolding has_long_iff by blast
qed

subsection \<open>The blank-line pass\<close>

lemma blank_copies:
  "\<not> line_start p \<Longrightarrow>
   replace_global blank_line_m delete_match p s = w @ b \<Longrightarrow>
   \<forall>c\<in>set w. \<not> is_line_terminator c \<Longrightarrow>
   \<exists>b0. s = w @ b0
     \<and> replace_global blank_line_m delete_match (if w = [] then p else Some (last w)) b0 = b"
proof (induction w arbitrary: p s)
  case Nil
  then show ?case by auto
next
  case (Cons x w)
  from Cons.prems(1) have none: "blank_line_m p s = None"
    using blank_line_m_iff [of p s] by blast
  from Cons.prems(2) obtain c cs where s: "s = c # cs"
    by (cases s) (auto simp: delete_match_Nil split: option.splits)
  with none Cons.prems(2)
  have cx: "c = x" and rest: "replace_global blank_line_m delete_match (Some c) cs = w @ b"
    by auto
  from Cons.prems(3) have "\<not> line_start (Some x)" by (simp add: line_start_def)
  from Cons.IH [OF this rest [unfolded cx]] Cons.prems(3) obtain b0
    where b0: "cs = w @ b0"
      "replace_global blank_line_m delete_match (if w = [] then Some x else Some (last w)) b0 = b"
    by auto
  have "(if x # w = [] then p else Some (last (x # w))) = (if w = [] then Some x else Some (last w))"
    by simp
  with b0 s cx show ?case by auto
qed

lemma blank_keeps_word:
  "replace_global blank_line_m delete_match p s = w @ b \<Longrightarrow> w \<noteq> [] \<Longrightarrow>
   \<forall>c\<in>set w. \<not> is_line_terminator c \<Longrightarrow>
   \<exists>a0 b0. s = a0 @ w @ b0 \<and> replace_global blank_line_m delete_match (Some (last w)) b0 = b"
proof (induction p s rule: scan_induct [where m = blank_line_m])
  case (Nil p)
  then show ?case by (simp add: delete_match_Nil split: option.splits)
next
  case (Skip p c cs)
  from Skip.prems(2) obtain x w' where w: "w = x # w'" by (cases w) auto
  with Skip.hyps Skip.prems(1)
  have cx: "c = x" and rest: "replace_global blank_line_m delete_match (Some x) cs = w' @ b"
    by auto
  from Skip.prems(3) w have "\<not> line_start (Some x)" by (simp add: line_start_def)
  from blank_copies [OF this rest] Skip.prems(3) w obtain b0
    where b0: "cs = w' @ b0"
      "replace_global blank_line_m delete_match (if w' = [] then Some x else Some (last w')) b0 = b"
    by auto
  have "Some (last w) = (if w' = [] then Some x else Some (last w'))" using w by simp
  with b0 cx w have "c # cs = [] @ w @ b0
      \<and> replace_global blank_line_m delete_match (Some (last w)) b0 = b" by simp
  then show ?case by blast
next
  case (Empty p c cs g)
  from blank_line_m_Some [OF Empty.hyps] show ?case by simp
next
  case (Match p c cs n g)
  from Match.prems(1)
  have "replace_global blank_line_m delete_match (Some ((c # cs) ! (n - 1))) (drop n (c # cs)) = w @ b"
    unfolding replace_global_delete [of blank_line_m, OF Match.hyps] .
  from Match.IH [OF this Match.prems(2,3)] obtain a0 b0
    where d: "drop n (c # cs) = a0 @ w @ b0"
      "replace_global blank_line_m delete_match (Some (last w)) b0 = b" by blast
  have "c # cs = (take n (c # cs) @ a0) @ w @ b0"
    using d(1) by (metis append_assoc append_take_drop_id)
  with d(2) show ?case by blast
qed

lemma blank_makes_no_long_comment:
  assumes "test_from long_comment_m q (replace_global blank_line_m delete_match p s)"
  shows "test_from long_comment_m q' s"
proof -
  from assms obtain u n body rest
    where out: "replace_global blank_line_m delete_match p s
                = u @ lb_open n @ (body @ lb_close n @ rest)"
    unfolding has_long_iff by auto
  have ne: "lb_open n \<noteq> []" "lb_close n \<noteq> []" by (simp_all add: lb_open_def lb_close_def)
  from delete_decompose [OF out] obtain a0 t0 p1
    where 1: "s = a0 @ t0"
      "replace_global blank_line_m delete_match p1 t0 = lb_open n @ (body @ lb_close n @ rest)"
    by blast
  from blank_keeps_word [OF 1(2) ne(1) lb_no_line_terminator(1)] obtain a1 b0
    where 2: "t0 = a1 @ lb_open n @ b0"
      "replace_global blank_line_m delete_match (Some (last (lb_open n))) b0
         = body @ (lb_close n @ rest)"
    by auto
  from delete_decompose [OF 2(2)] obtain a2 t1 p3
    where 3: "b0 = a2 @ t1"
      "replace_global blank_line_m delete_match p3 t1 = lb_close n @ rest"
    by blast
  from blank_keeps_word [OF 3(2) ne(2) lb_no_line_terminator(2)] obtain a3 b1
    where 4: "t1 = a3 @ lb_close n @ b1" by auto
  from 1(1) 2(1) 3(1) 4 have "s = (a0 @ a1) @ lb_open n @ (a2 @ a3) @ lb_close n @ b1" by simp
  then show ?thesis unfolding has_long_iff by blast
qed

lemma no_bracket_ahead_eqs:
  "no_bracket_ahead (replicate k c_eq @ r) = no_bracket_ahead r"
  by (induction k) (simp_all add: no_bracket_ahead_simps)

lemma blank_makes_no_line_comment:
  assumes "test_from line_comment_start_m q (replace_global blank_line_m delete_match p s)"
  shows "test_from line_comment_start_m q' s"
proof -
  from assms obtain u r
    where out: "replace_global blank_line_m delete_match p s = u @ c_dash # c_dash # r"
      and r: "no_bracket_ahead r"
    unfolding has_line_iff by blast
  define k where "k = length (takeWhile (\<lambda>x. x = c_eq) r)"
  define r' where "r' = dropWhile (\<lambda>x. x = c_eq) r"
  define w where "w = c_dash # c_dash # replicate k c_eq"
  have rr: "r = replicate k c_eq @ r'"
    using takeWhile_dropWhile_id [of "\<lambda>x. x = c_eq" r] takeWhile_eq_replicate [of c_eq r]
    by (simp add: k_def r'_def)
  have r'_hd: "r' = [] \<or> (hd r' \<noteq> c_eq \<and> hd r' \<noteq> c_lbr)"
  proof (cases r')
    case Nil
    then show ?thesis by simp
  next
    case (Cons y ys)
    have "r' \<noteq> []" using Cons by simp
    then have "hd r' \<noteq> c_eq"
      using hd_dropWhile [of "\<lambda>x. x = c_eq" r, folded r'_def] by blast
    then have "y \<noteq> c_eq" using Cons by simp
    moreover have "no_bracket_ahead (y # ys)" using r rr Cons by (simp add: no_bracket_ahead_eqs)
    then have "y \<noteq> c_lbr" by (auto simp: no_bracket_ahead_simps split: if_splits)
    ultimately show ?thesis using Cons by simp
  qed
  have out': "replace_global blank_line_m delete_match p s = u @ w @ r'"
    using out rr by (simp add: w_def)
  have w_ne: "w \<noteq> []" and w_clean: "\<forall>c\<in>set w. \<not> is_line_terminator c"
    and w_last: "\<not> line_start (Some (last w))"
    by (auto simp: w_def is_line_terminator_def line_start_def)
  from delete_decompose [OF out'] obtain a0 t0 p1
    where 1: "s = a0 @ t0" "replace_global blank_line_m delete_match p1 t0 = w @ r'" by blast
  from blank_keeps_word [OF 1(2) w_ne w_clean] obtain a1 b0
    where 2: "t0 = a1 @ w @ b0" "replace_global blank_line_m delete_match (Some (last w)) b0 = r'"
    by blast
  have "no_bracket_ahead b0"
  proof (cases b0)
    case Nil
    then show ?thesis by (simp add: no_bracket_ahead_simps)
  next
    case (Cons c cs)
    have "blank_line_m (Some (last w)) (c # cs) = None"
      using w_last blank_line_m_iff [of "Some (last w)" "c # cs"] by blast
    with 2(2) Cons have "r' = c # replace_global blank_line_m delete_match (Some c) cs" by auto
    with r'_hd have "c \<noteq> c_eq \<and> c \<noteq> c_lbr" by auto
    with Cons show ?thesis by (simp add: no_bracket_ahead_simps)
  qed
  then have "no_bracket_ahead (replicate k c_eq @ b0)" by (simp add: no_bracket_ahead_eqs)
  moreover have "s = (a0 @ a1) @ c_dash # c_dash # (replicate k c_eq @ b0)"
    using 1(1) 2(1) by (simp add: w_def)
  ultimately show ?thesis unfolding has_line_iff by blast
qed

subsection \<open>The long-bracket pass\<close>

lemma openers_detached_split:
  assumes "openers_detached t" and "t = a @ v" and "ends_with_opener_start a"
  shows "opener_at v = None"
proof -
  have "length a \<in> set [0..<Suc (length t)]" using assms(2) by simp
  with assms(1) have "opener_at (drop (length a) t) = None
      \<or> \<not> ends_with_opener_start (take (length a) t)"
    unfolding openers_detached_def list_all_iff by blast
  with assms(2,3) show ?thesis by simp
qed

lemma set_suffixes_of: "v \<in> set (suffixes_of s) \<longleftrightarrow> (\<exists>a. s = a @ v)"
proof (induction s)
  case Nil
  then show ?case by simp
next
  case (Cons c cs)
  show ?case
  proof
    assume "v \<in> set (suffixes_of (c # cs))"
    then consider "v = c # cs" | "v \<in> set (suffixes_of cs)" by auto
    then show "\<exists>a. c # cs = a @ v"
    proof cases
      case 1
      then show ?thesis by simp
    next
      case 2
      with Cons.IH obtain a where "cs = a @ v" by blast
      then have "c # cs = (c # a) @ v" by simp
      then show ?thesis by blast
    qed
  next
    assume "\<exists>a. c # cs = a @ v"
    then obtain a where a: "c # cs = a @ v" by blast
    show "v \<in> set (suffixes_of (c # cs))"
    proof (cases a)
      case Nil
      with a have "v = c # cs" by simp
      then show ?thesis by simp
    next
      case (Cons x a')
      with a have "cs = a' @ v" by simp
      with Cons.IH show ?thesis by auto
    qed
  qed
qed

lemma opener_at_open: "opener_at (lb_open n @ r) = Some (n, r)"
proof -
  have 1: "starts_with (js ''--['') (lb_open n @ r)"
    by (simp add: starts_with_def lb_open_def js_simps cu_def)
  have 2: "drop 3 (lb_open n @ r) = replicate n c_eq @ c_lbr # r"
    by (simp add: lb_open_def js_simps cu_def eval_nat_numeral)
  have 3: "length (takeWhile (\<lambda>x. x = c_eq) (replicate n c_eq @ c_lbr # r)) = n"
    by (simp add: takeWhile_append)
  have 4: "drop (3 + n) (lb_open n @ r) = c_lbr # r" "drop (4 + n) (lb_open n @ r) = r"
    by (simp_all add: lb_open_def js_simps cu_def eval_nat_numeral)
  have 5: "starts_with [c_lbr] (c_lbr # r)" by (simp add: starts_with_def)
  show ?thesis
    unfolding opener_at_def Let_def 2 3 4 using 1 5 by simp
qed

lemma long_comment_m_opener_at: "long_comment_m p v \<noteq> None \<Longrightarrow> opener_at v \<noteq> None"
  unfolding long_comment_m_iff by (auto simp: opener_at_open)

lemma opener_at_lb_open:
  assumes "opener_at v = Some (n, r)"
  shows "v = lb_open n @ r"
proof -
  from assms have sw: "starts_with (js ''--['') v"
    by (auto simp: opener_at_def split: if_splits)
  define d where "d = drop 3 v"
  have v: "v = c_dash # c_dash # c_lbr # d"
  proof -
    from sw have "v = js ''--['' @ drop (length (js ''--['')) v"
      unfolding starts_with_def by (metis append_take_drop_id)
    then show ?thesis by (simp add: js_simps cu_def d_def eval_nat_numeral)
  qed
  define k where "k = length (takeWhile (\<lambda>x. x = c_eq) d)"
  from assms sw have br: "starts_with [c_lbr] (drop (3 + k) v)" and nk: "n = k"
    and r: "r = drop (4 + k) v"
    by (auto simp: opener_at_def Let_def k_def d_def split: if_splits)
  have tw: "takeWhile (\<lambda>x. x = c_eq) d = replicate k c_eq"
    unfolding k_def by (rule takeWhile_eq_replicate)
  have d: "d = replicate k c_eq @ drop k d"
    using takeWhile_dropWhile_id [of "\<lambda>x. x = c_eq" d] tw
    by (metis append_eq_conv_conj length_replicate)
  have "drop (3 + k) v = drop k d" unfolding d_def by (simp add: add.commute)
  with br have "drop k d = c_lbr # drop 1 (drop k d)"
    unfolding starts_with_def by (cases "drop k d") auto
  moreover have "drop 1 (drop k d) = r" using r unfolding d_def by (simp add: add.commute)
  ultimately have "d = replicate k c_eq @ c_lbr # r" using d by simp
  with v nk show ?thesis by (simp add: lb_open_def js_simps cu_def)
qed

lemma find_first_of_occurrence:
  assumes "occurrences w s \<noteq> []"
  shows "find_first w s \<noteq> None"
proof -
  from assms obtain i where "i \<in> set (occurrences w s)" by (cases "occurrences w s") auto
  then have "starts_with w (drop i s)" by (simp add: in_occurrences)
  then have "drop i s = w @ drop (length w) (drop i s)"
    unfolding starts_with_def by (metis append_take_drop_id)
  then have "s = take i s @ w @ drop (length w) (drop i s)"
    by (metis append_take_drop_id)
  then show ?thesis using find_first_occurs [of w "take i s" "drop (length w) (drop i s)"] by simp
qed

lemma well_terminated_match:
  assumes "well_terminated t" and "t = a @ v" and "opener_at v \<noteq> None"
  shows "long_comment_m p v \<noteq> None"
proof -
  from assms(3) obtain n r where o: "opener_at v = Some (n, r)" by auto
  have "v \<in> set (suffixes_of t)" using assms(2) set_suffixes_of by blast
  with assms(1) o have "occurrences (lb_close n) r \<noteq> []"
    unfolding well_terminated_def by fastforce
  from find_first_of_occurrence [OF this] obtain j where "find_first (lb_close n) r = Some j"
    by auto
  then show ?thesis using opener_at_lb_open [OF o] by (simp add: long_comment_m_opener)
qed

lemma long_comment_m_pos: "long_comment_m p s = Some (n, g) \<Longrightarrow> 0 < n"
  by (auto simp: long_comment_m_def Let_def split: list.splits if_splits option.splits)

lemma copied_unit:
  "replace_global long_comment_m delete_match p s = u @ x # w \<Longrightarrow>
   \<exists>a0 cs p'. s = a0 @ x # cs \<and> long_comment_m p' (x # cs) = None
     \<and> replace_global long_comment_m delete_match (Some x) cs = w"
proof (induction p s arbitrary: u rule: scan_induct [where m = long_comment_m])
  case (Nil p)
  then show ?case by (simp add: delete_match_Nil split: option.splits)
next
  case (Skip p c cs)
  let ?out = "replace_global long_comment_m delete_match (Some c) cs"
  from Skip.hyps Skip.prems have out: "c # ?out = u @ x # w" by simp
  show ?case
  proof (cases u)
    case Nil
    with out have "c = x" "?out = w" by auto
    with Skip.hyps have "c # cs = [] @ x # cs \<and> long_comment_m p (x # cs) = None
      \<and> replace_global long_comment_m delete_match (Some x) cs = w" by simp
    then show ?thesis by blast
  next
    case (Cons y u')
    with out have "?out = u' @ x # w" by auto
    from Skip.IH [OF this] obtain a0 cs' p'
      where "cs = a0 @ x # cs'" "long_comment_m p' (x # cs') = None"
        "replace_global long_comment_m delete_match (Some x) cs' = w" by blast
    then have "c # cs = (c # a0) @ x # cs' \<and> long_comment_m p' (x # cs') = None
      \<and> replace_global long_comment_m delete_match (Some x) cs' = w" by simp
    then show ?thesis by blast
  qed
next
  case (Empty p c cs g)
  from long_comment_m_pos [OF Empty.hyps] show ?case by simp
next
  case (Match p c cs n g)
  from Match.prems
  have "replace_global long_comment_m delete_match (Some ((c # cs) ! (n - 1))) (drop n (c # cs))
        = u @ x # w"
    unfolding replace_global_delete [of long_comment_m, OF Match.hyps] .
  from Match.IH [OF this] obtain a0 cs' p'
    where d: "drop n (c # cs) = a0 @ x # cs'" "long_comment_m p' (x # cs') = None"
      "replace_global long_comment_m delete_match (Some x) cs' = w" by blast
  have "c # cs = (take n (c # cs) @ a0) @ x # cs'"
    using d(1) by (metis append_assoc append_take_drop_id)
  with d(2,3) show ?case by blast
qed

lemma replicate_prefix:
  "y @ z = replicate n c @ [x] \<Longrightarrow> z \<noteq> [] \<Longrightarrow> y = replicate (length y) c"
proof (induction n arbitrary: y)
  case 0
  then show ?case by (cases y) auto
next
  case (Suc n)
  show ?case
  proof (cases y)
    case Nil
    then show ?thesis by simp
  next
    case (Cons a y')
    with Suc.prems have "a = c" "y' @ z = replicate n c @ [x]" by simp_all
    with Suc.IH [OF this(2) Suc.prems(2)] Cons show ?thesis by simp
  qed
qed

lemma opener_start:
  assumes "y @ z = lb_open n" and "y \<noteq> []" and "z \<noteq> []"
  shows "ends_with_opener_start (a @ y)"
proof -
  from assms(1) have yz: "y @ z = c_dash # c_dash # c_lbr # (replicate n c_eq @ [c_lbr])"
    by (simp add: lb_open_def js_simps cu_def)
  from assms(2) obtain y1 ya where y: "y = y1 # ya" by (cases y) auto
  with yz have y1: "y1 = c_dash" and a: "ya @ z = c_dash # c_lbr # (replicate n c_eq @ [c_lbr])"
    by simp_all
  show ?thesis
  proof (cases ya)
    case Nil
    with y y1 show ?thesis by (simp add: ends_with_opener_start_def)
  next
    case (Cons y2 yb)
    with a have y2: "y2 = c_dash" and b: "yb @ z = c_lbr # (replicate n c_eq @ [c_lbr])"
      by simp_all
    show ?thesis
    proof (cases yb)
      case Nil
      with y y1 Cons y2 show ?thesis by (simp add: ends_with_opener_start_def)
    next
      case (Cons y3 yc)
      with b have y3: "y3 = c_lbr" and c: "yc @ z = replicate n c_eq @ [c_lbr]" by simp_all
      from replicate_prefix [OF c assms(3)] have yc: "yc = replicate (length yc) c_eq" .
      have "rev (a @ y) = replicate (length yc) c_eq @ [c_lbr, c_dash, c_dash] @ rev a"
        using y y1 \<open>ya = y2 # yb\<close> y2 Cons y3 yc
        by (metis append.assoc append_Cons append_Nil rev.simps(2) rev_append rev_replicate)
      then have "dropWhile (\<lambda>x. x = c_eq) (rev (a @ y)) = [c_lbr, c_dash, c_dash] @ rev a"
        by (simp add: dropWhile_append)
      then show ?thesis by (simp add: ends_with_opener_start_def starts_with_def)
    qed
  qed
qed

lemma opener_not_joined:
  "openers_detached t \<Longrightarrow> t = (a @ y) @ s \<Longrightarrow> y \<noteq> [] \<Longrightarrow> y @ z = lb_open n \<Longrightarrow>
   replace_global long_comment_m delete_match p s = z @ b \<Longrightarrow> \<exists>b0. s = z @ b0"
proof (induction z arbitrary: y s p)
  case Nil
  then show ?case by simp
next
  case (Cons c z)
  have "ends_with_opener_start (a @ y)"
    using opener_start [OF Cons.prems(4) Cons.prems(3)] by simp
  from openers_detached_split [OF Cons.prems(1,2) this] have "opener_at s = None" .
  then have none: "long_comment_m p s = None"
    using long_comment_m_opener_at [of p s] by blast
  from Cons.prems(5) obtain c' cs where s: "s = c' # cs"
    by (cases s) (auto simp: delete_match_Nil split: option.splits)
  with none Cons.prems(5)
  have c: "c' = c" and rest: "replace_global long_comment_m delete_match (Some c) cs = z @ b"
    by auto
  have "t = (a @ (y @ [c])) @ cs" using Cons.prems(2) s c by simp
  moreover have "y @ [c] \<noteq> []" by simp
  moreover have "(y @ [c]) @ z = lb_open n" using Cons.prems(4) by simp
  ultimately obtain b0 where "cs = z @ b0"
    using Cons.IH [OF Cons.prems(1) _ _ _ rest] by blast
  with s c show ?case by simp
qed

lemma no_opener_left:
  assumes wt: "well_terminated t" and det: "openers_detached t"
    and out: "replace_global long_comment_m delete_match p t = u @ v"
  shows "opener_at v = None"
proof (rule ccontr)
  assume "opener_at v \<noteq> None"
  then obtain n r where "opener_at v = Some (n, r)" by auto
  from opener_at_lb_open [OF this] have v: "v = lb_open n @ r" .
  define z where "z = c_dash # c_lbr # replicate n c_eq @ [c_lbr]"
  have lb: "lb_open n = c_dash # z" by (simp add: z_def lb_open_def js_simps cu_def)
  from out v lb have "replace_global long_comment_m delete_match p t = u @ c_dash # (z @ r)"
    by simp
  from copied_unit [OF this] obtain a0 cs p'
    where t: "t = a0 @ c_dash # cs" and none: "long_comment_m p' (c_dash # cs) = None"
      and rest: "replace_global long_comment_m delete_match (Some c_dash) cs = z @ r" by blast
  have "t = (a0 @ [c_dash]) @ cs" using t by simp
  moreover have "[c_dash] @ z = lb_open n" using lb by simp
  ultimately obtain b0 where "cs = z @ b0"
    using opener_not_joined [OF det _ _ _ rest, of a0 "[c_dash]" n] by blast
  then have "c_dash # cs = lb_open n @ b0" using lb by simp
  then have "opener_at (c_dash # cs) \<noteq> None" by (simp add: opener_at_open)
  from well_terminated_match [OF wt t this, of p'] none show False by simp
qed

lemma first_pass_complete:
  assumes "well_terminated t" and "openers_detached t"
  shows "\<not> regex_test long_comment_m (replace_all long_comment_m delete_match t)"
proof
  assume "regex_test long_comment_m (replace_all long_comment_m delete_match t)"
  then obtain u n body rest
    where "replace_global long_comment_m delete_match None t
           = u @ lb_open n @ (body @ lb_close n @ rest)"
    unfolding regex_test_def replace_all_def has_long_iff by auto
  from no_opener_left [OF assms this] show False by (simp add: opener_at_open)
qed

subsection \<open>No comment is left unless a removal joins one\<close>

lemma no_comment_after_complete_first_pass:
  assumes "\<not> regex_test long_comment_m (replace_all long_comment_m delete_match t)"
  shows "\<not> hasComments (deleteAllComments t)"
proof
  define r1 where "r1 = replace_all long_comment_m delete_match t"
  define r2 where "r2 = replace_global line_comment_m delete_match None r1"
  define r3 where "r3 = replace_global blank_line_m delete_match None r2"
  have d: "deleteAllComments t = r3"
    by (simp add: deleteAllComments_def replace_all_def r1_def r2_def r3_def)
  assume "hasComments (deleteAllComments t)"
  then consider "test_from long_comment_m None r3" | "test_from line_comment_start_m None r3"
    unfolding d hasComments_def regex_test_def by blast
  then show False
  proof cases
    case 1
    then have "test_from long_comment_m None r2"
      unfolding r3_def by (rule blank_makes_no_long_comment)
    then have "test_from long_comment_m None r1"
      unfolding r2_def by (rule strip_makes_no_long_comment)
    with assms show False by (simp add: regex_test_def r1_def)
  next
    case 2
    then have "test_from line_comment_start_m None r2"
      unfolding r3_def by (rule blank_makes_no_line_comment)
    then show False unfolding r2_def using no_line_comment_left by blast
  qed
qed

text \<open>
  Claim C1, amended. When every long-bracket opener of the text has its closer, and no
  opener stands directly behind the beginning of another (behind \<^verbatim>\<open>-\<close>, or behind \<^verbatim>\<open>--[\<close>
  and any \<^verbatim>\<open>=\<close>), \<open>hasComments\<close> is false on the result of \<open>deleteAllComments\<close>: the
  long-bracket pass leaves no opener, the single-line pass leaves no \<^verbatim>\<open>--\<close> that
  \<open>hasComments\<close> counts, and no later pass joins text to a new comment.
\<close>

theorem deleteAllComments_leaves_no_comment:
  assumes "well_terminated t" and "openers_detached t"
  shows "\<not> hasComments (deleteAllComments t)"
  using first_pass_complete [OF assms] by (rule no_comment_after_complete_first_pass)

theorem deleteAllComments_leaves_no_comment_witness:
  "well_terminated (js ''a --[[ c ]] b --[=[ d ]=]-- e'' @ c_lf # js ''x'')
   \<and> openers_detached (js ''a --[[ c ]] b --[=[ d ]=]-- e'' @ c_lf # js ''x'')
   \<and> hasComments (js ''a --[[ c ]] b --[=[ d ]=]-- e'' @ c_lf # js ''x'')
   \<and> deleteAllComments (js ''a --[[ c ]] b --[=[ d ]=]-- e'' @ c_lf # js ''x'')
       = js ''a  b '' @ c_lf # js ''x''
   \<and> \<not> hasComments (deleteAllComments (js ''a --[[ c ]] b --[=[ d ]=]-- e'' @ c_lf # js ''x''))"
proof -
  have w: "well_terminated (js ''a --[[ c ]] b --[=[ d ]=]-- e'' @ c_lf # js ''x'')"
    by code_simp
  have d: "openers_detached (js ''a --[[ c ]] b --[=[ d ]=]-- e'' @ c_lf # js ''x'')"
    by code_simp
  have h: "hasComments (js ''a --[[ c ]] b --[=[ d ]=]-- e'' @ c_lf # js ''x'')"
    by code_simp
  have e: "deleteAllComments (js ''a --[[ c ]] b --[=[ d ]=]-- e'' @ c_lf # js ''x'')
       = js ''a  b '' @ c_lf # js ''x''"
    by code_simp
  from deleteAllComments_leaves_no_comment [OF w d] w d h e show ?thesis by blast
qed

text \<open>
  Well-terminated comments are not enough: on \<^verbatim>\<open>--[--[[a]][ x ]]\<close> every opener has its
  closer, and the removal of \<^verbatim>\<open>--[[a]]\<close> joins \<^verbatim>\<open>--[\<close> and \<^verbatim>\<open>[ x ]]\<close> to a comment that
  is returned.
\<close>

theorem deleteAllComments_leaves_comment_counterexample:
  "well_terminated (js ''--[--[[a]][ x ]]'')
   \<and> \<not> openers_detached (js ''--[--[[a]][ x ]]'')
   \<and> deleteAllComments (js ''--[--[[a]][ x ]]'') = js ''--[[ x ]]''
   \<and> hasComments (deleteAllComments (js ''--[--[[a]][ x ]]''))"
  by code_simp

section \<open>Preserving single-line comments\<close>

lemma preserve_m_ctx: "preserve_m p s = preserve_m q s"
  by (simp add: preserve_m_def)

lemma preserve_global_ctx:
  "replace_global preserve_m f p s = replace_global preserve_m f q s"
proof (cases s)
  case Nil
  show ?thesis unfolding Nil replace_global.simps preserve_m_ctx [of p "[]" q] ..
next
  case (Cons c cs)
  show ?thesis unfolding Cons replace_global.simps preserve_m_ctx [of p "c # cs" q] ..
qed

lemma dashes_open_long_iff:
  "dashes_open_long s \<longleftrightarrow>
   (\<forall>i. i \<le> length s \<and> starts_with (js ''--'') (drop i s) \<longrightarrow> opener_at (drop i s) \<noteq> None)"
  by (auto simp: dashes_open_long_def list_all_iff in_occurrences)

lemma dashes_open_long_tl:
  assumes "dashes_open_long (x # s)"
  shows "dashes_open_long s"
  unfolding dashes_open_long_iff
proof (intro allI impI)
  fix i assume "i \<le> length s \<and> starts_with (js ''--'') (drop i s)"
  then have "Suc i \<le> length (x # s) \<and> starts_with (js ''--'') (drop (Suc i) (x # s))" by simp
  from assms [unfolded dashes_open_long_iff, rule_format, OF this]
  show "opener_at (drop i s) \<noteq> None" by simp
qed

lemma opener_at_Some: "opener_at v \<noteq> None \<Longrightarrow> \<exists>r. v = c_dash # c_dash # c_lbr # r"
proof -
  assume "opener_at v \<noteq> None"
  then have "starts_with (js ''--['') v"
    by (auto simp: opener_at_def split: if_splits)
  then have "v = js ''--['' @ drop (length (js ''--['')) v"
    unfolding starts_with_def by (metis append_take_drop_id)
  then have "v = c_dash # c_dash # c_lbr # drop (length (js ''--['')) v"
    by (simp add: js_simps cu_def)
  then show ?thesis by blast
qed

lemma preserve_m_bracket: "preserve_m p (c_dash # c_dash # c_lbr # r) = None"
  by (simp add: preserve_m_def is_sp_tab_def)

lemma preserve_before_dashes:
  "dashes_open_long (pre @ [c_dash]) \<Longrightarrow>
   replace_global preserve_m f p (pre @ c_dash # t)
     = pre @ replace_global preserve_m f (if pre = [] then p else Some (last pre)) (c_dash # t)"
proof (induction pre arbitrary: p)
  case Nil
  then show ?case by simp
next
  case (Cons x pre)
  have same: "starts_with (js ''--'') ((x # pre) @ c_dash # t)
              = starts_with (js ''--'') ((x # pre) @ [c_dash])"
    by (cases pre) (auto simp: starts_with_def js_simps cu_def)
  have none: "preserve_m p ((x # pre) @ c_dash # t) = None"
  proof (cases "starts_with (js ''--'') ((x # pre) @ [c_dash])")
    case False
    with same show ?thesis by (simp add: no_dashes_no_match)
  next
    case True
    with Cons.prems [unfolded dashes_open_long_iff, rule_format, of 0]
    have "opener_at ((x # pre) @ [c_dash]) \<noteq> None" by simp
    from opener_at_Some [OF this] obtain r
      where r: "(x # pre) @ [c_dash] = c_dash # c_dash # c_lbr # r" by blast
    then obtain r' where "pre = c_dash # c_lbr # r'"
      by (cases pre; cases "tl pre") auto
    with r show ?thesis by (simp add: preserve_m_bracket)
  qed
  have "dashes_open_long (pre @ [c_dash])"
    using Cons.prems dashes_open_long_tl [of x "pre @ [c_dash]"] by simp
  from Cons.IH [OF this, of "Some x"] none show ?case by simp
qed

lemma takeWhile_stop:
  "ys = [] \<or> \<not> P (hd ys) \<Longrightarrow> takeWhile P (xs @ ys) = takeWhile P xs"
  by (induction xs) (auto simp: takeWhile_eq_Nil_iff)

lemma dropWhile_stop:
  "ys = [] \<or> \<not> P (hd ys) \<Longrightarrow> dropWhile P (xs @ ys) = dropWhile P xs @ ys"
  by (induction xs) (auto simp: dropWhile_eq_self_iff)

lemma sp_tab_ws: "is_sp_tab c \<Longrightarrow> is_ws c"
  by (auto simp: is_sp_tab_def is_ws_def)

lemma sp_tab_not_eol: "is_sp_tab c \<Longrightarrow> \<not> is_line_terminator c"
  by (auto simp: is_sp_tab_def is_line_terminator_def)

lemma js_trim_leading: "\<forall>c\<in>set w. is_ws c \<Longrightarrow> js_trim (w @ b) = js_trim b"
  by (simp add: js_trim_def dropWhile_append2)

lemma preserve_m_line:
  assumes body: "\<forall>c\<in>set body. \<not> is_line_terminator c"
    and hd: "body = [] \<or> hd body \<noteq> c_lbr"
    and rest: "rest = [] \<or> is_line_terminator (hd rest)"
  shows "\<exists>content. preserve_m p (c_dash # c_dash # body @ rest) = Some (2 + length body, content)
           \<and> js_trim content = js_trim body"
proof -
  define w where "w = takeWhile is_sp_tab body"
  define b' where "b' = dropWhile is_sp_tab body"
  have bw: "body = w @ b'" by (simp add: w_def b'_def)
  have rest_sp: "rest = [] \<or> \<not> is_sp_tab (hd rest)" using rest sp_tab_not_eol by blast
  have tw: "takeWhile is_sp_tab (body @ rest) = w"
    unfolding w_def using rest_sp by (rule takeWhile_stop)
  have dw: "dropWhile is_sp_tab (body @ rest) = b' @ rest"
    unfolding b'_def using rest_sp by (rule dropWhile_stop)
  have w_ws: "\<forall>c\<in>set w. is_ws c"
    unfolding w_def using sp_tab_ws by (auto dest: set_takeWhileD)
  have b'_clean: "\<forall>c\<in>set b'. \<not> is_line_terminator c"
    using body bw by auto
  have rest_nl: "rest = [] \<or> \<not> \<not> is_line_terminator (hd rest)" using rest by simp
  have line: "takeWhile (\<lambda>x. \<not> is_line_terminator x) (b' @ rest) = b'"
    using takeWhile_stop [of rest "\<lambda>x. \<not> is_line_terminator x" b'] rest_nl b'_clean by simp
  have trim: "js_trim b' = js_trim body" using js_trim_leading [OF w_ws, of b'] bw by simp
  have len: "length w + length b' = length body" using bw by (metis length_append)
  show ?thesis
  proof (cases "case b' @ rest of [] \<Rightarrow> True | d # _ \<Rightarrow> d \<noteq> c_lbr")
    case True
    then have "preserve_m p (c_dash # c_dash # body @ rest) = Some (2 + length w + length b', b')"
      by (simp add: preserve_m_def tw dw line Let_def)
    with trim len show ?thesis by (simp add: add.assoc)
  next
    case False
    then obtain bs where b': "b' @ rest = c_lbr # bs" by (auto split: list.splits)
    have "b' \<noteq> []"
    proof
      assume "b' = []"
      with b' rest show False by (auto simp: is_line_terminator_def)
    qed
    with b' have hb: "hd b' = c_lbr" by (cases b') auto
    have "w \<noteq> []"
    proof
      assume "w = []"
      with bw hb \<open>b' \<noteq> []\<close> hd show False by auto
    qed
    have lw: "is_sp_tab (last w)"
      using \<open>w \<noteq> []\<close> set_takeWhileD [of "last w" is_sp_tab body] by (simp add: w_def)
    then have nl: "\<not> is_line_terminator (last w)" by (rule sp_tab_not_eol)
    then have line': "takeWhile (\<lambda>x. \<not> is_line_terminator x) (last w # b' @ rest) = last w # b'"
      using line by simp
    have "preserve_m p (c_dash # c_dash # body @ rest)
           = Some (2 + (length w - 1) + length (last w # b'), last w # b')"
      using False \<open>w \<noteq> []\<close> nl by (simp add: preserve_m_def tw dw line Let_def)
    moreover have "2 + (length w - 1) + length (last w # b') = 2 + length body"
      using \<open>w \<noteq> []\<close> len by (cases w) auto
    moreover have "js_trim (last w # b') = js_trim body"
      using js_trim_leading [of "[last w]" b'] lw sp_tab_ws trim by auto
    ultimately show ?thesis by simp
  qed
qed

lemma preserve_line:
  assumes pre: "dashes_open_long (pre @ [c_dash])"
    and body: "\<forall>c\<in>set body. \<not> is_line_terminator c"
    and hd: "body = [] \<or> hd body \<noteq> c_lbr"
    and rest: "rest = [] \<or> is_line_terminator (hd rest)"
  shows "replace_all preserve_m preserve_repl (pre @ js ''--'' @ body @ rest)
         = pre @ (if js_trim body = [] then [] else js '' --[[ '' @ js_trim body @ js '' ]] '')
             @ replace_all preserve_m preserve_repl rest"
proof -
  let ?t = "c_dash # c_dash # body @ rest"
  define q where "q = (if pre = [] then None else Some (last pre))"
  from preserve_m_line [OF body hd rest, of q] obtain content
    where m: "preserve_m q ?t = Some (2 + length body, content)"
      and trim: "js_trim content = js_trim body" by blast
  have "replace_global preserve_m preserve_repl q ?t
        = preserve_repl (take (2 + length body) ?t) content
            @ replace_global preserve_m preserve_repl (Some (?t ! (2 + length body - 1)))
                (drop (2 + length body) ?t)"
    by (rule replace_global_match [of preserve_m, OF m]) simp
  also have "drop (2 + length body) ?t = rest" by simp
  also have "replace_global preserve_m preserve_repl (Some (?t ! (2 + length body - 1))) rest
             = replace_all preserve_m preserve_repl rest"
    unfolding replace_all_def by (rule preserve_global_ctx)
  also have "preserve_repl (take (2 + length body) ?t) content
             = (if js_trim body = [] then [] else js '' --[[ '' @ js_trim body @ js '' ]] '')"
    by (simp add: preserve_repl_def trim Let_def)
  finally have line: "replace_global preserve_m preserve_repl q ?t
      = (if js_trim body = [] then [] else js '' --[[ '' @ js_trim body @ js '' ]] '')
          @ replace_all preserve_m preserve_repl rest" .
  have "pre @ js ''--'' @ body @ rest = pre @ c_dash # (c_dash # body @ rest)"
    by (simp add: js_simps cu_def)
  then have "replace_all preserve_m preserve_repl (pre @ js ''--'' @ body @ rest)
        = pre @ replace_global preserve_m preserve_repl q ?t"
    unfolding replace_all_def q_def using preserve_before_dashes [OF pre] by simp
  with line show ?thesis by simp
qed

lemma preserve_openers:
  assumes "dashes_open_long s"
  shows "replace_all preserve_m preserve_repl s = s"
  unfolding replace_all_def
proof (rule replace_global_id)
  fix p' u v assume s: "s = u @ v"
  show "preserve_m p' v = None"
  proof (cases "starts_with (js ''--'') v")
    case False
    then show ?thesis by (simp add: no_dashes_no_match)
  next
    case True
    with s have "length u \<le> length s \<and> starts_with (js ''--'') (drop (length u) s)" by simp
    from assms [unfolded dashes_open_long_iff, rule_format, OF this] s
    have "opener_at v \<noteq> None" by simp
    from opener_at_Some [OF this] obtain r where "v = c_dash # c_dash # c_lbr # r" by blast
    then show ?thesis by (simp add: preserve_m_bracket)
  qed
qed

text \<open>
  Claim C6, amended. The preserve mode of \<open>toOneLiner\<close> first rewrites the comments and then
  collapses the white space. Where every \<^verbatim>\<open>--\<close> before it begins a long-bracket opener, the
  rewriting turns a \<^verbatim>\<open>--\<close> that has no \<^verbatim>\<open>[\<close> right behind it, with the rest of its line,
  into \<^verbatim>\<open> --[[ \<close>, the trimmed rest of the line, \<^verbatim>\<open> ]] \<close>, or into nothing when the rest of
  the line is white space, and goes on behind the line. A text in which every \<^verbatim>\<open>--\<close> begins
  a long-bracket opener is left as it is.
\<close>

theorem toOneLiner_preserve_rewrites:
  "toOneLiner code Preserve
     = js_trim (replace_all ws_run2_m one_space (replace_all nl_tab_run_m one_space
         (replace_all preserve_m preserve_repl code)))
   \<and> (dashes_open_long (pre @ [c_dash]) \<and> (\<forall>c\<in>set body. \<not> is_line_terminator c)
        \<and> (body = [] \<or> hd body \<noteq> c_lbr) \<and> (rest = [] \<or> is_line_terminator (hd rest)) \<longrightarrow>
      replace_all preserve_m preserve_repl (pre @ js ''--'' @ body @ rest)
         = pre @ (if js_trim body = [] then [] else js '' --[[ '' @ js_trim body @ js '' ]] '')
             @ replace_all preserve_m preserve_repl rest)
   \<and> (dashes_open_long s \<longrightarrow> replace_all preserve_m preserve_repl s = s)"
  using preserve_line [of pre body rest] preserve_openers [of s]
  by (simp add: toOneLiner_def)

theorem toOneLiner_preserve_rewrites_witness:
  "dashes_open_long (js ''a --[[ c ]] b '' @ [c_dash])
   \<and> list_all (\<lambda>c. \<not> is_line_terminator c) (js ''   note  '')
   \<and> hd (js ''   note  '') \<noteq> c_lbr
   \<and> is_line_terminator (hd (c_lf # js ''y''))
   \<and> replace_all preserve_m preserve_repl (js ''a --[[ c ]] b --   note  '' @ c_lf # js ''y'')
       = js ''a --[[ c ]] b  --[[ note ]] '' @ c_lf # js ''y''
   \<and> toOneLiner (js ''a --[[ c ]] b --   note  '' @ c_lf # js ''y'') Preserve
       = js ''a --[[ c ]] b --[[ note ]] y''
   \<and> dashes_open_long (js ''a --[==[ b ]==] c'')
   \<and> replace_all preserve_m preserve_repl (js ''a --[==[ b ]==] c'') = js ''a --[==[ b ]==] c''"
proof -
  have h1: "dashes_open_long (js ''a --[[ c ]] b '' @ [c_dash])"
    by code_simp
  have h2: "list_all (\<lambda>c. \<not> is_line_terminator c) (js ''   note  '')"
    by code_simp
  have h3: "hd (js ''   note  '') \<noteq> c_lbr"
    by code_simp
  have h4: "is_line_terminator (hd (c_lf # js ''y''))"
    by code_simp
  have h5: "dashes_open_long (js ''a --[==[ b ]==] c'')"
    by code_simp
  have e1: "js ''a --[[ c ]] b '' @ js ''--'' @ js ''   note  '' @ c_lf # js ''y''
            = js ''a --[[ c ]] b --   note  '' @ c_lf # js ''y''"
    by code_simp
  have e2: "js ''a --[[ c ]] b '' @ (if js_trim (js ''   note  '') = [] then []
               else js '' --[[ '' @ js_trim (js ''   note  '') @ js '' ]] '')
             @ replace_all preserve_m preserve_repl (c_lf # js ''y'')
            = js ''a --[[ c ]] b  --[[ note ]] '' @ c_lf # js ''y''"
    by code_simp
  have e3: "toOneLiner (js ''a --[[ c ]] b --   note  '' @ c_lf # js ''y'') Preserve
            = js ''a --[[ c ]] b --[[ note ]] y''"
    by code_simp
  note t = toOneLiner_preserve_rewrites [of "[]" "js ''a --[[ c ]] b ''" "js ''   note  ''"
      "c_lf # js ''y''" "js ''a --[==[ b ]==] c''"]
  from t h1 h2 h3 h4
  have "replace_all preserve_m preserve_repl
          (js ''a --[[ c ]] b '' @ js ''--'' @ js ''   note  '' @ c_lf # js ''y'')
         = js ''a --[[ c ]] b '' @ (if js_trim (js ''   note  '') = [] then []
               else js '' --[[ '' @ js_trim (js ''   note  '') @ js '' ]] '')
             @ replace_all preserve_m preserve_repl (c_lf # js ''y'')"
    unfolding list_all_iff by blast
  then have r1: "replace_all preserve_m preserve_repl
          (js ''a --[[ c ]] b --   note  '' @ c_lf # js ''y'')
       = js ''a --[[ c ]] b  --[[ note ]] '' @ c_lf # js ''y''"
    unfolding e1 e2 .
  from t h5
  have r2: "replace_all preserve_m preserve_repl (js ''a --[==[ b ]==] c'') = js ''a --[==[ b ]==] c''"
    by blast
  from h1 h2 h3 h4 h5 r1 r2 e3 show ?thesis by blast
qed

text \<open>
  A long-bracket comment with a \<^verbatim>\<open>--\<close> inside is not left untouched: the rewriting does not
  look for long-bracket comments, and takes the inner \<^verbatim>\<open>--\<close> for a single-line comment.
\<close>

theorem toOneLiner_preserve_counterexample:
  "has_long_bracket_comment (js ''--[[ a -- b ]]'')
   \<and> replace_all preserve_m preserve_repl (js ''--[[ a -- b ]]'') = js ''--[[ a  --[[ b ]] ]] ''
   \<and> toOneLiner (js ''--[[ a -- b ]]'') Preserve = js ''--[[ a --[[ b ]] ]]''"
  by code_simp

section \<open>Removal is not idempotent\<close>

text \<open>
  Claim C10. \<open>deleteAllComments\<close> is not idempotent. On \<^verbatim>\<open>--[--[[a]][ x ]]\<close> the long-bracket
  pass removes \<^verbatim>\<open>--[[a]]\<close>; the text on both sides of the removal joins to the complete
  comment \<^verbatim>\<open>--[[ x ]]\<close>, which the same call does not scan again and therefore returns.
  A second call removes it.
\<close>

theorem deleteAllComments_not_idempotent:
  "replace_all long_comment_m delete_match (js ''--[--[[a]][ x ]]'') = js ''--[[ x ]]''
   \<and> deleteAllComments (js ''--[--[[a]][ x ]]'') = js ''--[[ x ]]''
   \<and> deleteAllComments (deleteAllComments (js ''--[--[[a]][ x ]]'')) = []
   \<and> (\<exists>t. deleteAllComments (deleteAllComments t) \<noteq> deleteAllComments t)"
proof -
  have first_pass: "replace_all long_comment_m delete_match (js ''--[--[[a]][ x ]]'') = js ''--[[ x ]]''"
    by code_simp
  have once: "deleteAllComments (js ''--[--[[a]][ x ]]'') = js ''--[[ x ]]''"
    by code_simp
  have twice: "deleteAllComments (js ''--[[ x ]]'') = []"
    by code_simp
  have differ: "js ''--[[ x ]]'' \<noteq> []"
    by code_simp
  from once twice differ
  have "deleteAllComments (deleteAllComments (js ''--[--[[a]][ x ]]''))
          \<noteq> deleteAllComments (js ''--[--[[a]][ x ]]'')"
    by simp
  then have "\<exists>t. deleteAllComments (deleteAllComments t) \<noteq> deleteAllComments t" ..
  with first_pass once twice show ?thesis by simp
qed

end
